theory Spec2Isabelle
  imports Main "HOL-Library.Sublist"
begin

section \<open>Request logger middleware (src/request\_logger.py)\<close>

text \<open>
  The module classifies an inbound request by its path (\<open>parse_request_info\<close>) and by its
  User-Agent header (\<open>extract_client_name\<close>), and writes one line per classified request
  (\<open>RequestLoggerMiddleware.dispatch\<close>). All three are embedded below. The regular
  expressions of the module are written as terms of a small regex type, interpreted by a
  backtracking matcher that follows the priorities of Python's \<open>re\<close> (leftmost position
  first, greedy repetition, optional part tried before it is skipped).
\<close>

subsection \<open>Python strings\<close>

text \<open>
  A Python \<open>str\<close> is a sequence of Unicode code points, so a string is a list of naturals.
  \<open>cps\<close> reads an ASCII literal as such a list. The path of a request may hold any code
  point, and the emoji of the log line lie outside the 8-bit range.
\<close>

type_synonym pystr = "nat list"

definition cps :: "string \<Rightarrow> pystr" where
  "cps s = map of_char s"

subsection \<open>Character classes of the patterns\<close>

text \<open>
  \<open>\d\<close> in a \<open>str\<close> pattern is the Unicode category Nd, not only \<open>0-9\<close>. Every run of
  decimal digits in the Unicode database is ten consecutive code points; \<open>Nd_zeros\<close> lists
  the digit zero of each run (Unicode 14.0, the database of CPython 3.11).
\<close>

definition Nd_zeros :: "nat list" where
  "Nd_zeros =
    [0x30, 0x660, 0x6f0, 0x7c0, 0x966, 0x9e6, 0xa66, 0xae6, 0xb66, 0xbe6, 0xc66, 0xce6,
     0xd66, 0xde6, 0xe50, 0xed0, 0xf20, 0x1040, 0x1090, 0x17e0, 0x1810, 0x1946, 0x19d0,
     0x1a80, 0x1a90, 0x1b50, 0x1bb0, 0x1c40, 0x1c50, 0xa620, 0xa8d0, 0xa900, 0xa9d0,
     0xa9f0, 0xaa50, 0xabf0, 0xff10, 0x104a0, 0x10d30, 0x11066, 0x110f0, 0x11136,
     0x111d0, 0x112f0, 0x11450, 0x114d0, 0x11650, 0x116c0, 0x11730, 0x118e0, 0x11950,
     0x11c50, 0x11d50, 0x11da0, 0x16a60, 0x16ac0, 0x16b50, 0x1d7ce, 0x1d7d8, 0x1d7e2,
     0x1d7ec, 0x1d7f6, 0x1e140, 0x1e2f0, 0x1e950, 0x1fbf0]"

definition uni_decimal :: "nat \<Rightarrow> bool" where
  "uni_decimal c = list_ex (\<lambda>z. z \<le> c \<and> c < z + 10) Nd_zeros"

text \<open>The class \<open>[\d.]\<close>.\<close>

definition digit_or_dot :: "nat \<Rightarrow> bool" where
  "digit_or_dot c = (uni_decimal c \<or> c = of_char CHR ''.'')"

text \<open>The class \<open>[^:]\<close>; a negated class also accepts a newline.\<close>

definition not_colon :: "nat \<Rightarrow> bool" where
  "not_colon c = (c \<noteq> of_char CHR '':'')"

text \<open>The classes \<open>[A-Za-z]\<close> and \<open>[A-Za-z0-9_-]\<close>, used without any flag.\<close>

definition alpha :: "nat \<Rightarrow> bool" where
  "alpha c = (of_char CHR ''A'' \<le> c \<and> c \<le> of_char CHR ''Z''
              \<or> of_char CHR ''a'' \<le> c \<and> c \<le> of_char CHR ''z'')"

definition name_char :: "nat \<Rightarrow> bool" where
  "name_char c = (alpha c \<or> of_char CHR ''0'' \<le> c \<and> c \<le> of_char CHR ''9''
                  \<or> c = of_char CHR ''_'' \<or> c = of_char CHR ''-'')"

text \<open>
  A literal character of a pattern compiled with \<open>re.IGNORECASE\<close>. For an ASCII letter
  the subject may have either case; in a \<open>str\<close> pattern the letters i, s and k also accept
  U+0130 and U+0131, U+017F, and U+212A. All literals of the module are ASCII.
\<close>

definition ascii_lower :: "nat \<Rightarrow> nat" where
  "ascii_lower c = (if of_char CHR ''A'' \<le> c \<and> c \<le> of_char CHR ''Z'' then c + 32 else c)"

definition ignorecase_eq :: "nat \<Rightarrow> nat \<Rightarrow> bool" where
  "ignorecase_eq c x =
     (ascii_lower x = ascii_lower c
      \<or> (ascii_lower c = of_char CHR ''i'' \<and> (x = 0x130 \<or> x = 0x131))
      \<or> (ascii_lower c = of_char CHR ''s'' \<and> x = 0x17f)
      \<or> (ascii_lower c = of_char CHR ''k'' \<and> x = 0x212a))"

definition chr_eq :: "bool \<Rightarrow> nat \<Rightarrow> nat \<Rightarrow> bool" where
  "chr_eq ic c x = (if ic then ignorecase_eq c x else x = c)"

subsection \<open>Regular expressions and the matcher\<close>

text \<open>
  The constructs the module's patterns use: a literal character, a character class, the
  empty pattern, concatenation, \<open>r?\<close>, \<open>[..]*\<close>, \<open>[..]+\<close>, the capturing group and \<open>^\<close>.
  No pattern of the module has more than one capturing group, so \<open>Grp\<close> is group 1.
\<close>

datatype rx =
    Lit nat
  | Cls "nat \<Rightarrow> bool"
  | Eps
  | Cat rx rx
  | Opt rx
  | Star "nat \<Rightarrow> bool"
  | Plus "nat \<Rightarrow> bool"
  | Grp rx
  | Bol

text \<open>A literal string, and a sequence of patterns.\<close>

definition str :: "string \<Rightarrow> rx" where
  "str s = foldr (\<lambda>c r. Cat (Lit (of_char c)) r) s Eps"

definition seq :: "rx list \<Rightarrow> rx" where
  "seq rs = foldr Cat rs Eps"

text \<open>\<open>Pattern.groups\<close>: the number of capturing groups of a pattern.\<close>

primrec ngroups :: "rx \<Rightarrow> nat" where
  "ngroups (Lit c) = 0"
| "ngroups (Cls p) = 0"
| "ngroups Eps = 0"
| "ngroups (Cat a b) = ngroups a + ngroups b"
| "ngroups (Opt a) = ngroups a"
| "ngroups (Star p) = 0"
| "ngroups (Plus p) = 0"
| "ngroups (Grp a) = Suc (ngroups a)"
| "ngroups Bol = 0"

text \<open>
  The matcher is written with a continuation \<open>k\<close> for the rest of the pattern: it gets the
  position reached, the rest of the subject and the text of group 1 so far. \<open>None\<close> is
  failure, and makes the caller try its next alternative.

  A greedy repetition of a class takes a character when it can, and gives it back when
  the rest of the pattern fails behind it.
\<close>

type_synonym 'a cont = "nat \<Rightarrow> pystr \<Rightarrow> pystr option \<Rightarrow> 'a option"

fun rep :: "(nat \<Rightarrow> bool) \<Rightarrow> nat \<Rightarrow> pystr \<Rightarrow> pystr option \<Rightarrow> 'a cont \<Rightarrow> 'a option" where
  "rep p n [] g k = k n [] g"
| "rep p n (x # t) g k =
     (if p x then (case rep p (Suc n) t g k of Some r \<Rightarrow> Some r | None \<Rightarrow> k n (x # t) g)
      else k n (x # t) g)"

primrec bt :: "bool \<Rightarrow> rx \<Rightarrow> nat \<Rightarrow> pystr \<Rightarrow> pystr option \<Rightarrow> 'a cont \<Rightarrow> 'a option" where
  "bt ic (Lit c) n s g k =
     (case s of [] \<Rightarrow> None | x # t \<Rightarrow> if chr_eq ic c x then k (Suc n) t g else None)"
| "bt ic (Cls p) n s g k =
     (case s of [] \<Rightarrow> None | x # t \<Rightarrow> if p x then k (Suc n) t g else None)"
| "bt ic Eps n s g k = k n s g"
| "bt ic (Cat a b) n s g k = bt ic a n s g (\<lambda>n' s' g'. bt ic b n' s' g' k)"
| "bt ic (Opt a) n s g k =
     (case bt ic a n s g k of Some r \<Rightarrow> Some r | None \<Rightarrow> k n s g)"
| "bt ic (Star p) n s g k = rep p n s g k"
| "bt ic (Plus p) n s g k =
     (case s of [] \<Rightarrow> None | x # t \<Rightarrow> if p x then rep p (Suc n) t g k else None)"
| "bt ic (Grp a) n s g k = bt ic a n s g (\<lambda>n' s' g'. k n' s' (Some (take (n' - n) s)))"
| "bt ic Bol n s g k = (if n = 0 then k n s g else None)"

text \<open>
  A match object: the number of groups of its pattern, and the text of group 1
  (\<open>None\<close> when the group took no part in the match).
\<close>

record match_obj =
  re_groups :: nat
  group1_text :: "pystr option"

definition match_at :: "bool \<Rightarrow> rx \<Rightarrow> nat \<Rightarrow> pystr \<Rightarrow> match_obj option" where
  "match_at ic r n s =
     bt ic r n s None (\<lambda>n' s' g. Some \<lparr>re_groups = ngroups r, group1_text = g\<rparr>)"

text \<open>\<open>re.match(pattern, string, flags)\<close>: a match at position 0 only.\<close>

definition re_match :: "rx \<Rightarrow> pystr \<Rightarrow> bool \<Rightarrow> match_obj option" where
  "re_match r s ic = match_at ic r 0 s"

text \<open>
  \<open>re.search(pattern, string, flags)\<close>: the first position, from the left, at which the
  pattern matches; the end of the string is a position too.
\<close>

fun search_from :: "bool \<Rightarrow> rx \<Rightarrow> nat \<Rightarrow> pystr \<Rightarrow> match_obj option" where
  "search_from ic r n [] = match_at ic r n []"
| "search_from ic r n (x # t) =
     (case match_at ic r n (x # t) of
        Some m \<Rightarrow> Some m
      | None \<Rightarrow> search_from ic r (Suc n) t)"

definition re_search :: "rx \<Rightarrow> pystr \<Rightarrow> bool \<Rightarrow> match_obj option" where
  "re_search r s ic = search_from ic r 0 s"

text \<open>
  \<open>Match.group(1)\<close> raises IndexError when the pattern has no group 1, and is \<open>None\<close>
  when the group took no part. \<open>Match.lastindex\<close> is the index of the last matched group,
  or \<open>None\<close>.
\<close>

datatype error = IndexError

definition group1 :: "match_obj \<Rightarrow> error + pystr option" where
  "group1 m = (if re_groups m < 1 then Inl IndexError else Inr (group1_text m))"

definition lastindex :: "match_obj \<Rightarrow> nat option" where
  "lastindex m = (case group1_text m of None \<Rightarrow> None | Some t \<Rightarrow> Some 1)"

text \<open>Truth value of \<open>match.lastindex\<close>: \<open>None\<close> and 0 are false.\<close>

definition truthy :: "nat option \<Rightarrow> bool" where
  "truthy v = (case v of None \<Rightarrow> False | Some i \<Rightarrow> i \<noteq> 0)"

subsection \<open>The rule tables\<close>

text \<open>\<open>API_PATTERNS\<close> (lines 17 to 30), in the order of the source.\<close>

definition API_PATTERNS :: "(rx \<times> pystr) list" where
  "API_PATTERNS =
    [(seq [Bol, str ''/antigravity/v1'', Opt (str ''beta''), str ''/models/'',
           Grp (Plus not_colon), str '':''], cps ''antigravity''),
     (seq [Bol, str ''/antigravity/v1/chat/completions''], cps ''antigravity''),
     (seq [Bol, str ''/antigravity/v1/messages''], cps ''antigravity''),
     (seq [Bol, str ''/v1'', Opt (str ''beta''), str ''/models/'',
           Grp (Plus not_colon), str '':''], cps ''geminicli''),
     (seq [Bol, str ''/v1/chat/completions''], cps ''geminicli''),
     (seq [Bol, str ''/v1/messages''], cps ''geminicli'')]"

text \<open>
  \<open>client_patterns\<close> (lines 46 to 58): each is \<open>(Name)/[\d.]+\<close> for one product name.
\<close>

definition known_client :: "string \<Rightarrow> rx" where
  "known_client name = seq [Grp (str name), str ''/'', Plus digit_or_dot]"

definition client_names :: "string list" where
  "client_names =
    [''CherryStudio'', ''Cursor'', ''VSCode'', ''Insomnia'', ''Postman'', ''HTTPie'',
     ''curl'', ''python-requests'', ''axios'', ''node-fetch'', ''Electron'']"

definition client_patterns :: "rx list" where
  "client_patterns = map known_client client_names"

text \<open>The generic pattern of line 67: \<open>^([A-Za-z][A-Za-z0-9_-]*)/\<close>.\<close>

definition product_pattern :: rx where
  "product_pattern = seq [Bol, Grp (Cat (Cls alpha) (Star name_char)), str ''/'']"

subsection \<open>extract\_client\_name\<close>

text \<open>
  The loop of lines 60 to 63: the first pattern that is found decides, and the result is
  \<open>match.group(1)\<close>. \<open>None\<close> says that the loop ended without a match.
\<close>

fun known_loop :: "rx list \<Rightarrow> pystr \<Rightarrow> (error + pystr option) option" where
  "known_loop [] user_agent = None"
| "known_loop (pattern # rest) user_agent =
     (case re_search pattern user_agent True of
        Some m \<Rightarrow> Some (group1 m)
      | None \<Rightarrow> known_loop rest user_agent)"

definition extract_client_name :: "pystr \<Rightarrow> error + pystr option" where
  "extract_client_name user_agent =
     (if user_agent = [] then Inr (Some (cps ''Unknown''))
      else case known_loop client_patterns user_agent of
             Some r \<Rightarrow> r
           | None \<Rightarrow>
               (case re_search product_pattern user_agent False of
                  Some m \<Rightarrow> group1 m
                | None \<Rightarrow> Inr (Some (cps ''Browser''))))"

subsection \<open>parse\_request\_info\<close>

text \<open>
  The loop of lines 80 to 88 over the rules. The result is the triple
  \<open>(mode, model, client)\<close>, or \<open>None\<close> when no rule matched the path; an exception of a
  step is the result of the whole call.
\<close>

type_synonym info = "pystr \<times> pystr option \<times> pystr option"

fun route_loop :: "(rx \<times> pystr) list \<Rightarrow> pystr \<Rightarrow> pystr \<Rightarrow> error + info option" where
  "route_loop [] path user_agent = Inr None"
| "route_loop ((pattern, mode) # rest) path user_agent =
     (case re_match pattern path False of
        Some m \<Rightarrow>
          (case (if truthy (lastindex m) then group1 m else Inr (Some (cps ''chat''))) of
             Inl e \<Rightarrow> Inl e
           | Inr model \<Rightarrow>
               (case extract_client_name user_agent of
                  Inl e \<Rightarrow> Inl e
                | Inr client \<Rightarrow> Inr (Some (mode, model, client))))
      | None \<Rightarrow> route_loop rest path user_agent)"

definition parse_request_info :: "pystr \<Rightarrow> pystr \<Rightarrow> error + info option" where
  "parse_request_info path user_agent = route_loop API_PATTERNS path user_agent"

subsection \<open>The middleware\<close>

text \<open>
  A request as the middleware reads it: the path of its URL and its headers, with the
  names in lower case as the server delivers them. \<open>headers_get\<close> is
  \<open>request.headers.get(key, default)\<close>.
\<close>

record request =
  url_path :: pystr
  headers :: "(pystr \<times> pystr) list"

definition headers_get :: "(pystr \<times> pystr) list \<Rightarrow> pystr \<Rightarrow> pystr \<Rightarrow> pystr" where
  "headers_get hs key dflt = (case map_of hs key of Some v \<Rightarrow> v | None \<Rightarrow> dflt)"

text \<open>
  What the middleware does to the outside is a trace of events: a line given to
  \<open>log.info\<close>, or a call of the continuation \<open>call_next\<close> with a request.
\<close>

datatype event = LogInfo pystr | CallNext request

text \<open>How an f-string renders a value that is a \<open>str\<close> or \<open>None\<close>.\<close>

definition fmt :: "pystr option \<Rightarrow> pystr" where
  "fmt v = (case v of Some s \<Rightarrow> s | None \<Rightarrow> cps ''None'')"

definition rocket :: pystr where
  "rocket = [0x1f680]"

definition sparkles :: pystr where
  "sparkles = [0x2728]"

text \<open>
  \<open>dispatch\<close> (lines 98 to 113). The trace so far is threaded through; \<open>call_next\<close> is a
  function from the request to the response. An exception raised while the request is
  classified leaves \<open>dispatch\<close> before the continuation is called.
\<close>

definition dispatch ::
  "request \<Rightarrow> (request \<Rightarrow> 'r) \<Rightarrow> event list \<Rightarrow> error + ('r \<times> event list)" where
  "dispatch request call_next trace =
     (let path = url_path request;
          user_agent = headers_get (headers request) (cps ''user-agent'') [] in
      case parse_request_info path user_agent of
        Inl e \<Rightarrow> Inl e
      | Inr info \<Rightarrow>
          (let trace1 =
             (case info of
                None \<Rightarrow> trace
              | Some (mode, model, client) \<Rightarrow>
                  (let emoji = (if mode = cps ''antigravity'' then rocket else sparkles) in
                   trace @ [LogInfo (emoji @ cps '' '' @ fmt model @ cps '' | '' @ fmt client)]));
               response = call_next request
           in Inr (response, trace1 @ [CallNext request])))"

subsection \<open>Notions used in the statements\<close>

text \<open>A pattern in which every match sets group 1: the group does not sit under \<open>?\<close>.\<close>

primrec sets_group :: "rx \<Rightarrow> bool" where
  "sets_group (Lit c) = False"
| "sets_group (Cls p) = False"
| "sets_group Eps = False"
| "sets_group (Cat a b) = (sets_group a \<or> sets_group b)"
| "sets_group (Opt a) = False"
| "sets_group (Star p) = False"
| "sets_group (Plus p) = False"
| "sets_group (Grp a) = True"
| "sets_group Bol = False"

text \<open>
  The subject begins with the literal \<open>name\<close>, character by character, under the flag
  \<open>ic\<close>.
\<close>

definition lit_prefix :: "bool \<Rightarrow> string \<Rightarrow> pystr \<Rightarrow> bool" where
  "lit_prefix ic name s =
     (length name \<le> length s \<and> list_all2 (chr_eq ic) (cps name) (take (length name) s))"

text \<open>
  The subject begins with \<open>name\<close> in any letter case, then a slash, then at least one
  character of \<open>[\d.]\<close>: what \<open>(Name)/[\d.]+\<close> asks of the text at one position.
\<close>

definition known_here :: "string \<Rightarrow> pystr \<Rightarrow> bool" where
  "known_here name s =
     (lit_prefix True name s \<and>
      (case drop (length name) s of
         x # d # t \<Rightarrow> x = of_char CHR ''/'' \<and> digit_or_dot d
       | _ \<Rightarrow> False))"

text \<open>The User-Agent header as \<open>dispatch\<close> reads it (line 101).\<close>

definition user_agent_of :: "request \<Rightarrow> pystr" where
  "user_agent_of request = headers_get (headers request) (cps ''user-agent'') []"

text \<open>
  The whitespace characters of a Python \<open>str\<close>, those for which \<open>str.isspace\<close> holds.
\<close>

definition py_space :: "nat \<Rightarrow> bool" where
  "py_space c =
     (0x9 \<le> c \<and> c \<le> 0xd \<or> 0x1c \<le> c \<and> c \<le> 0x20 \<or> c = 0x85 \<or> c = 0xa0 \<or> c = 0x1680
      \<or> 0x2000 \<le> c \<and> c \<le> 0x200a \<or> c = 0x2028 \<or> c = 0x2029 \<or> c = 0x202f
      \<or> c = 0x205f \<or> c = 0x3000)"

section \<open>Properties of the matcher\<close>

lemma rep_cont: "rep p n s g k = Some x \<Longrightarrow> \<exists>n' s'. k n' s' g = Some x"
  by (induction p n s g k rule: rep.induct) (auto split: if_splits option.splits)

lemma bt_group:
  "bt ic r n s g k = Some x \<Longrightarrow>
   \<exists>n' s' g'. k n' s' g' = Some x \<and> (ngroups r = 0 \<longrightarrow> g' = g)
     \<and> (sets_group r \<or> g \<noteq> None \<longrightarrow> g' \<noteq> None)"
proof (induction r arbitrary: n s g k)
  case (Cat a b)
  from Cat.prems have "bt ic a n s g (\<lambda>n' s' g'. bt ic b n' s' g' k) = Some x" by simp
  from Cat.IH(1)[OF this] obtain n1 s1 g1 where
    1: "bt ic b n1 s1 g1 k = Some x" "ngroups a = 0 \<longrightarrow> g1 = g"
       "sets_group a \<or> g \<noteq> None \<longrightarrow> g1 \<noteq> None" by auto
  from Cat.IH(2)[OF 1(1)] obtain n2 s2 g2 where
    2: "k n2 s2 g2 = Some x" "ngroups b = 0 \<longrightarrow> g2 = g1"
       "sets_group b \<or> g1 \<noteq> None \<longrightarrow> g2 \<noteq> None" by auto
  from 1 2 show ?case by (intro exI[of _ n2] exI[of _ s2] exI[of _ g2]) auto
next
  case (Opt a)
  show ?case
  proof (cases "bt ic a n s g k")
    case None
    with Opt.prems have "k n s g = Some x" by simp
    then show ?thesis by (intro exI[of _ n] exI[of _ s] exI[of _ g]) auto
  next
    case (Some y)
    with Opt.prems have "bt ic a n s g k = Some x" by simp
    from Opt.IH[OF this] obtain n1 s1 g1 where
      1: "k n1 s1 g1 = Some x" "ngroups a = 0 \<longrightarrow> g1 = g"
         "sets_group a \<or> g \<noteq> None \<longrightarrow> g1 \<noteq> None" by auto
    then show ?thesis by (intro exI[of _ n1] exI[of _ s1] exI[of _ g1]) auto
  qed
next
  case (Grp a)
  from Grp.prems have "bt ic a n s g (\<lambda>n' s' g'. k n' s' (Some (take (n' - n) s))) = Some x"
    by simp
  from Grp.IH[OF this] obtain n1 s1 where
    1: "k n1 s1 (Some (take (n1 - n) s)) = Some x" by auto
  then show ?case
    by (intro exI[of _ n1] exI[of _ s1] exI[of _ "Some (take (n1 - n) s)"]) auto
next
  case (Star p)
  then have "rep p n s g k = Some x" by simp
  from rep_cont[OF this] obtain n1 s1 where "k n1 s1 g = Some x" by auto
  then show ?case by (intro exI[of _ n1] exI[of _ s1] exI[of _ g]) auto
next
  case (Plus p)
  then obtain y t where "s = y # t" "rep p (Suc n) t g k = Some x"
    by (auto split: list.splits if_splits)
  from rep_cont[OF this(2)] obtain n1 s1 where "k n1 s1 g = Some x" by auto
  then show ?case by (intro exI[of _ n1] exI[of _ s1] exI[of _ g]) auto
next
  case (Lit c)
  then obtain y t where "s = y # t" "k (Suc n) t g = Some x"
    by (auto split: list.splits if_splits)
  then show ?case by (intro exI[of _ "Suc n"] exI[of _ t] exI[of _ g]) auto
next
  case (Cls p)
  then obtain y t where "s = y # t" "k (Suc n) t g = Some x"
    by (auto split: list.splits if_splits)
  then show ?case by (intro exI[of _ "Suc n"] exI[of _ t] exI[of _ g]) auto
next
  case Eps
  then have "k n s g = Some x" by simp
  then show ?case by (intro exI[of _ n] exI[of _ s] exI[of _ g]) auto
next
  case Bol
  then have "k n s g = Some x" by (simp split: if_splits)
  then show ?case by (intro exI[of _ n] exI[of _ s] exI[of _ g]) auto
qed

lemma match_at_group:
  assumes "match_at ic r n s = Some m"
  shows "re_groups m = ngroups r"
    and "ngroups r = 0 \<Longrightarrow> group1_text m = None"
    and "sets_group r \<Longrightarrow> group1_text m \<noteq> None"
proof -
  from bt_group[OF assms[unfolded match_at_def]] obtain g' where
    g: "m = \<lparr>re_groups = ngroups r, group1_text = g'\<rparr>" "ngroups r = 0 \<longrightarrow> g' = None"
       "sets_group r \<longrightarrow> g' \<noteq> None" by auto
  show "re_groups m = ngroups r" using g by simp
  show "ngroups r = 0 \<Longrightarrow> group1_text m = None" using g by simp
  show "sets_group r \<Longrightarrow> group1_text m \<noteq> None" using g by simp
qed

lemma search_from_at:
  "search_from ic r n s = Some m \<Longrightarrow> \<exists>i\<le>length s. match_at ic r (n + i) (drop i s) = Some m"
proof (induction s arbitrary: n)
  case Nil
  then show ?case by simp
next
  case (Cons x t)
  show ?case
  proof (cases "match_at ic r n (x # t)")
    case (Some y)
    with Cons.prems have "match_at ic r (n + 0) (drop 0 (x # t)) = Some m" by simp
    then show ?thesis by blast
  next
    case None
    with Cons.prems have "search_from ic r (Suc n) t = Some m" by simp
    from Cons.IH[OF this] obtain i where "i \<le> length t" "match_at ic r (Suc n + i) (drop i t) = Some m"
      by blast
    then have "Suc i \<le> length (x # t)" "match_at ic r (n + Suc i) (drop (Suc i) (x # t)) = Some m"
      by simp_all
    then show ?thesis by blast
  qed
qed

lemma str_Nil: "str [] = Eps"
  by (simp add: str_def)

lemma str_Cons: "str (c # cs) = Cat (Lit (of_char c)) (str cs)"
  by (simp add: str_def)

lemma ngroups_str: "ngroups (str name) = 0"
  by (induction name) (simp_all add: str_Nil str_Cons)

lemma lit_prefix_Nil: "lit_prefix ic [] s"
  by (simp add: lit_prefix_def cps_def)

lemma lit_prefix_Cons:
  "lit_prefix ic (c # cs) s = (case s of [] \<Rightarrow> False | x # t \<Rightarrow> chr_eq ic (of_char c) x \<and> lit_prefix ic cs t)"
  by (cases s) (auto simp: lit_prefix_def cps_def)

lemma bt_str:
  "bt ic (str name) n s g k =
     (if lit_prefix ic name s then k (n + length name) (drop (length name) s) g else None)"
proof (induction name arbitrary: n s)
  case Nil
  then show ?case by (simp add: str_Nil lit_prefix_Nil)
next
  case (Cons c cs)
  show ?case
  proof (cases s)
    case Nil
    then show ?thesis by (simp add: str_Cons lit_prefix_Cons)
  next
    case (Cons x t)
    then show ?thesis by (simp add: str_Cons lit_prefix_Cons Cons.IH)
  qed
qed

lemma rep_commit:
  assumes "\<And>n' c t'. p c \<Longrightarrow> k n' (c # t') g = None"
  shows "rep p n s g k = k (n + length (takeWhile p s)) (dropWhile p s) g"
  using assms by (induction s arbitrary: n) (auto split: option.splits)

lemma rep_const: "rep p n s g (\<lambda>n' s' g'. Some (f g')) = Some (f g)"
  by (induction s arbitrary: n) auto

lemma ngroups_known_client: "ngroups (known_client name) = 1"
  by (simp add: known_client_def seq_def ngroups_str)

lemma match_at_known_client:
  "match_at True (known_client name) n s =
     (if known_here name s
      then Some \<lparr>re_groups = 1, group1_text = Some (take (length name) s)\<rparr>
      else None)"
proof -
  have "match_at True (known_client name) n s =
        (if lit_prefix True name s
         then (case drop (length name) s of
                 [] \<Rightarrow> None
               | x # u \<Rightarrow> if x = of_char CHR ''/'' then
                    (case u of [] \<Rightarrow> None
                     | d # t \<Rightarrow> if digit_or_dot d
                        then Some \<lparr>re_groups = 1, group1_text = Some (take (length name) s)\<rparr>
                        else None)
                  else None)
         else None)"
    unfolding match_at_def known_client_def seq_def
    by (simp add: bt_str ngroups_str str_Cons str_Nil chr_eq_def ignorecase_eq_def ascii_lower_def
        rep_const[where f = "\<lambda>g. \<lparr>re_groups = Suc 0, group1_text = g\<rparr>"] split: list.splits)
  then show ?thesis
    by (auto simp: known_here_def split: list.splits)
qed

section \<open>The client patterns\<close>

lemma sets_group_str: "\<not> sets_group (str name)"
  by (induction name) (simp_all add: str_Nil str_Cons)

lemma known_loop_find:
  "known_loop ps ua =
     (case find (\<lambda>p. re_search p ua True \<noteq> None) ps of
        None \<Rightarrow> None
      | Some p \<Rightarrow> map_option group1 (re_search p ua True))"
  by (induction ps) (auto split: option.splits)

lemma known_loop_Some:
  "known_loop (map known_client names) ua = Some r \<Longrightarrow>
   \<exists>name i. name \<in> set names \<and> i \<le> length ua \<and> known_here name (drop i ua)
      \<and> r = Inr (Some (take (length name) (drop i ua)))"
proof (induction names)
  case Nil
  then show ?case by simp
next
  case (Cons nm names)
  show ?case
  proof (cases "re_search (known_client nm) ua True")
    case None
    with Cons.prems have "known_loop (map known_client names) ua = Some r" by simp
    from Cons.IH[OF this] show ?thesis by auto
  next
    case (Some m)
    with Cons.prems have r: "r = group1 m" by simp
    from Some obtain i where i: "i \<le> length ua"
      "match_at True (known_client nm) (0 + i) (drop i ua) = Some m"
      unfolding re_search_def using search_from_at by blast
    from i(2) have "known_here nm (drop i ua)"
      and "m = \<lparr>re_groups = 1, group1_text = Some (take (length nm) (drop i ua))\<rparr>"
      by (auto simp: match_at_known_client split: if_splits)
    with r i(1) show ?thesis
      by (intro exI[of _ nm] exI[of _ i]) (simp add: group1_def)
  qed
qed

lemma name_char_not_slash: "name_char c \<Longrightarrow> c \<noteq> 47"
  by (auto simp: name_char_def alpha_def)

lemma match_at_product_pattern:
  "match_at False product_pattern n s =
     (if n = 0 then
        (case s of
           [] \<Rightarrow> None
         | x # t \<Rightarrow>
             if alpha x then
               (case dropWhile name_char t of
                  [] \<Rightarrow> None
                | y # rest \<Rightarrow>
                    if y = of_char CHR ''/''
                    then Some \<lparr>re_groups = 1, group1_text = Some (x # takeWhile name_char t)\<rparr>
                    else None)
             else None)
      else None)"
proof (cases "n = 0")
  case False
  then show ?thesis by (simp add: match_at_def product_pattern_def seq_def)
next
  case True
  show ?thesis
  proof (cases s)
    case Nil
    then show ?thesis using True by (simp add: match_at_def product_pattern_def seq_def)
  next
    case (Cons x t)
    let ?k = "\<lambda>n' s' g'. bt False (Cat (str ''/'') Eps) n' s' (Some (take (n' - 0) (x # t)))
                (\<lambda>n' s' g. Some \<lparr>re_groups = ngroups product_pattern, group1_text = g\<rparr>)"
    have k: "\<And>n' c t'. name_char c \<Longrightarrow> ?k n' (c # t') None = None"
      using name_char_not_slash by (auto simp: str_Cons str_Nil chr_eq_def)
    have ng: "ngroups product_pattern = 1"
      by (simp add: product_pattern_def seq_def ngroups_str)
    have cap: "take (length (takeWhile name_char t)) t = takeWhile name_char t"
      by (rule takeWhile_eq_take[symmetric])
    have A: "match_at False product_pattern 0 (x # t) =
            (if alpha x then rep name_char (Suc 0) t None ?k else None)"
      by (simp add: match_at_def product_pattern_def seq_def)
    have B: "rep name_char (Suc 0) t None ?k =
         ?k (Suc 0 + length (takeWhile name_char t)) (dropWhile name_char t) None"
      by (rule rep_commit) (rule k)
    have C: "?k (Suc 0 + length (takeWhile name_char t)) (dropWhile name_char t) None =
         (case dropWhile name_char t of
            [] \<Rightarrow> None
          | y # rest \<Rightarrow>
              if y = of_char CHR ''/''
              then Some \<lparr>re_groups = 1, group1_text = Some (x # takeWhile name_char t)\<rparr>
              else None)"
      by (simp add: str_Cons str_Nil chr_eq_def ng cap del: dropWhile_eq_Nil_conv
            split: list.split)
    show ?thesis unfolding True Cons A B C by simp
  qed
qed

lemma search_from_anchored:
  assumes "\<And>n s. 0 < n \<Longrightarrow> match_at ic r n s = None"
  shows "search_from ic r (Suc n) s = None"
  using assms by (induction s arbitrary: n) auto

lemma re_search_anchored:
  assumes "\<And>n s. 0 < n \<Longrightarrow> match_at ic r n s = None"
  shows "re_search r s ic = match_at ic r 0 s"
  using search_from_anchored[OF assms] by (cases s) (auto simp: re_search_def split: option.splits)

lemma re_search_product_pattern:
  "re_search product_pattern s False = match_at False product_pattern 0 s"
  by (rule re_search_anchored) (simp add: match_at_product_pattern)

lemma extract_client_name_str: "\<exists>t. extract_client_name ua = Inr (Some t)"
proof (cases "ua = []")
  case True
  then show ?thesis by (simp add: extract_client_name_def)
next
  case False
  show ?thesis
  proof (cases "known_loop client_patterns ua")
    case (Some r)
    then obtain t where "r = Inr (Some t)"
      unfolding client_patterns_def using known_loop_Some by blast
    with Some False show ?thesis by (simp add: extract_client_name_def)
  next
    case None
    with False show ?thesis
      by (auto simp: extract_client_name_def re_search_product_pattern match_at_product_pattern
            group1_def split: list.splits option.splits)
  qed
qed

lemma re_search_known_client:
  assumes "re_search (known_client name) ua True = Some m"
  shows "\<exists>i\<le>length ua. known_here name (drop i ua)
           \<and> m = \<lparr>re_groups = 1, group1_text = Some (take (length name) (drop i ua))\<rparr>"
proof -
  from assms obtain i where i: "i \<le> length ua"
    "match_at True (known_client name) (0 + i) (drop i ua) = Some m"
    unfolding re_search_def using search_from_at by blast
  from i(2) have "known_here name (drop i ua)"
    and "m = \<lparr>re_groups = 1, group1_text = Some (take (length name) (drop i ua))\<rparr>"
    by (auto simp: match_at_known_client split: if_splits)
  with i(1) show ?thesis by blast
qed

lemma known_here_text:
  "known_here name s \<Longrightarrow> list_all2 ignorecase_eq (cps name) (take (length name) s)"
  by (simp add: known_here_def lit_prefix_def chr_eq_def[abs_def])

lemma sublist_take_drop: "sublist (take l (drop i s)) s"
proof -
  have "s = take i s @ drop i s" by simp
  also have "drop i s = take l (drop i s) @ drop l (drop i s)"
    by (rule append_take_drop_id[symmetric])
  finally have "s = take i s @ take l (drop i s) @ drop l (drop i s)" .
  then show ?thesis unfolding sublist_def by blast
qed

lemma product_pattern_iff:
  "re_search product_pattern ua False \<noteq> None \<longleftrightarrow>
   (\<exists>x nm rest. ua = x # nm @ of_char CHR ''/'' # rest \<and> alpha x \<and> list_all name_char nm)"
  (is "?L \<longleftrightarrow> ?R")
proof
  assume ?L
  then obtain x t rest where ua: "ua = x # t" "alpha x" "dropWhile name_char t = 47 # rest"
    by (auto simp: re_search_product_pattern match_at_product_pattern
          split: list.splits if_splits)
  have "t = takeWhile name_char t @ 47 # rest"
    using takeWhile_dropWhile_id[of name_char t] ua(3) by simp
  moreover have "list_all name_char (takeWhile name_char t)"
    by (auto simp: list_all_iff dest: set_takeWhileD)
  ultimately show ?R using ua(1,2) by auto
next
  assume ?R
  then obtain x nm rest where ua: "ua = x # nm @ 47 # rest" "alpha x" "list_all name_char nm"
    by auto
  have "\<not> name_char 47" using name_char_not_slash by blast
  then have "dropWhile name_char (nm @ 47 # rest) = 47 # rest"
    using ua(3) by (simp add: list_all_iff)
  with ua show ?L
    by (simp add: re_search_product_pattern match_at_product_pattern)
qed

lemma product_pattern_text:
  assumes "re_search product_pattern ua False = Some m"
  shows "\<exists>nm rest. group1_text m = Some nm \<and> re_groups m = 1 \<and> ua = nm @ of_char CHR ''/'' # rest"
proof -
  from assms obtain x t rest where ua: "ua = x # t" "alpha x" "dropWhile name_char t = 47 # rest"
    and m: "m = \<lparr>re_groups = 1, group1_text = Some (x # takeWhile name_char t)\<rparr>"
    by (auto simp: re_search_product_pattern match_at_product_pattern
          split: list.splits if_splits)
  have "t = takeWhile name_char t @ 47 # rest"
    using takeWhile_dropWhile_id[of name_char t] ua(3) by simp
  then have "ua = (x # takeWhile name_char t) @ of_char CHR ''/'' # rest"
    using ua(1) by simp
  with m show ?thesis by auto
qed

lemma bt_Plus_run:
  assumes "m \<noteq> []" and "\<forall>c\<in>set m. p c" and "\<not> p y"
    and "\<And>n' c t'. p c \<Longrightarrow> k n' (c # t') g = None"
  shows "bt ic (Plus p) n (m @ y # rest) g k = k (n + length m) (y # rest) g"
proof -
  from assms(1) obtain x t where m: "m = x # t" by (cases m) auto
  with assms(2) have px: "p x" and pt: "\<forall>c\<in>set t. p c" by auto
  have tw: "takeWhile p (t @ y # rest) = t" "dropWhile p (t @ y # rest) = y # rest"
    using pt assms(3) by simp_all
  have "bt ic (Plus p) n (m @ y # rest) g k = rep p (Suc n) (t @ y # rest) g k"
    using m px by simp
  also have "\<dots> = k (Suc n + length (takeWhile p (t @ y # rest))) (dropWhile p (t @ y # rest)) g"
    by (rule rep_commit) (rule assms(4))
  finally show ?thesis using tw m by simp
qed

section \<open>The route patterns and the middleware\<close>

lemma API_PATTERNS_shape:
  assumes "(p, mode) \<in> set API_PATTERNS"
  shows "ngroups p = 0 \<or> sets_group p"
    and "mode = cps ''antigravity'' \<or> mode = cps ''geminicli''"
  using assms by (auto simp: API_PATTERNS_def seq_def ngroups_str sets_group_str)

lemma route_model:
  assumes "re_match p path False = Some m" and "ngroups p = 0 \<or> sets_group p"
  shows "(if truthy (lastindex m) then group1 m else Inr (Some (cps ''chat''))) =
         Inr (if ngroups p = 0 then Some (cps ''chat'') else group1_text m)"
proof -
  from assms(1) have at: "match_at False p 0 path = Some m" by (simp add: re_match_def)
  show ?thesis
  proof (cases "ngroups p = 0")
    case True
    then have "group1_text m = None" using match_at_group(2)[OF at] by simp
    with True show ?thesis by (simp add: lastindex_def truthy_def)
  next
    case False
    with assms(2) have "sets_group p" by simp
    then have "group1_text m \<noteq> None" using match_at_group(3)[OF at] by simp
    moreover have "re_groups m = ngroups p" by (rule match_at_group(1)[OF at])
    ultimately show ?thesis using False by (auto simp: lastindex_def truthy_def group1_def)
  qed
qed

lemma route_loop_find:
  assumes "\<forall>pm\<in>set ps. ngroups (fst pm) = 0 \<or> sets_group (fst pm)"
    and "extract_client_name ua = Inr c"
  shows "route_loop ps path ua =
     (case find (\<lambda>pm. re_match (fst pm) path False \<noteq> None) ps of
        None \<Rightarrow> Inr None
      | Some pm \<Rightarrow>
          (case re_match (fst pm) path False of
             None \<Rightarrow> Inr None
           | Some m \<Rightarrow>
               Inr (Some (snd pm,
                  (if ngroups (fst pm) = 0 then Some (cps ''chat'') else group1_text m), c))))"
  using assms(1)
proof (induction ps)
  case Nil
  then show ?case by simp
next
  case (Cons pm ps)
  obtain p mode where pm: "pm = (p, mode)" by (cases pm)
  show ?case
  proof (cases "re_match p path False")
    case None
    with Cons pm show ?thesis by simp
  next
    case (Some m)
    from Cons.prems pm have "ngroups p = 0 \<or> sets_group p" by simp
    from route_model[OF Some this] Some pm assms(2) show ?thesis by simp
  qed
qed

lemma parse_request_info_find:
  assumes "extract_client_name ua = Inr c"
  shows "parse_request_info path ua =
     (case find (\<lambda>pm. re_match (fst pm) path False \<noteq> None) API_PATTERNS of
        None \<Rightarrow> Inr None
      | Some pm \<Rightarrow>
          (case re_match (fst pm) path False of
             None \<Rightarrow> Inr None
           | Some m \<Rightarrow>
               Inr (Some (snd pm,
                  (if ngroups (fst pm) = 0 then Some (cps ''chat'') else group1_text m), c))))"
  unfolding parse_request_info_def
  by (rule route_loop_find[OF _ assms]) (auto dest: API_PATTERNS_shape(1))

lemma parse_request_info_cases:
  "parse_request_info path ua = Inr None \<or>
   (\<exists>mode model client. parse_request_info path ua = Inr (Some (mode, Some model, Some client))
      \<and> (mode = cps ''antigravity'' \<or> mode = cps ''geminicli''))"
proof -
  obtain t where t: "extract_client_name ua = Inr (Some t)"
    using extract_client_name_str by blast
  show ?thesis
  proof (cases "find (\<lambda>pm. re_match (fst pm) path False \<noteq> None) API_PATTERNS")
    case None
    then show ?thesis by (simp add: parse_request_info_find[OF t])
  next
    case (Some pm)
    then have mem: "pm \<in> set API_PATTERNS" and "re_match (fst pm) path False \<noteq> None"
      by (auto simp: find_Some_iff)
    then obtain m where m: "re_match (fst pm) path False = Some m" by auto
    from mem have shape: "ngroups (fst pm) = 0 \<or> sets_group (fst pm)"
      "snd pm = cps ''antigravity'' \<or> snd pm = cps ''geminicli''"
      using API_PATTERNS_shape[of "fst pm" "snd pm"] by simp_all
    have "\<exists>model. (if ngroups (fst pm) = 0 then Some (cps ''chat'') else group1_text m) = Some model"
      using shape(1) match_at_group(3)[OF m[unfolded re_match_def]] by auto
    then obtain model where
      "(if ngroups (fst pm) = 0 then Some (cps ''chat'') else group1_text m) = Some model" ..
    with Some m shape(2) show ?thesis
      by (simp add: parse_request_info_find[OF t])
  qed
qed

lemma dispatch_unmatched:
  "parse_request_info (url_path req) (user_agent_of req) = Inr None \<Longrightarrow>
   dispatch req call_next tr = Inr (call_next req, tr @ [CallNext req])"
  by (simp add: dispatch_def user_agent_of_def)

lemma dispatch_matched:
  "parse_request_info (url_path req) (user_agent_of req) = Inr (Some (mode, model, client)) \<Longrightarrow>
   dispatch req call_next tr =
     Inr (call_next req,
          tr @ [LogInfo ((if mode = cps ''antigravity'' then rocket else sparkles)
                          @ cps '' '' @ fmt model @ cps '' | '' @ fmt client),
                CallNext req])"
  by (simp add: dispatch_def user_agent_of_def)

section \<open>Evaluation rules and lemmas for the claims\<close>

lemmas client_eval = cps_def str_def seq_def match_at_def re_search_def group1_def chr_eq_def
  ignorecase_eq_def ascii_lower_def digit_or_dot_def uni_decimal_def Nd_zeros_def alpha_def
  name_char_def known_client_def client_names_def client_patterns_def product_pattern_def
  extract_client_name_def

lemma known_loop_names:
  "known_loop (map known_client names) ua =
     (case find (\<lambda>nm. re_search (known_client nm) ua True \<noteq> None) names of
        None \<Rightarrow> None
      | Some nm \<Rightarrow> map_option group1 (re_search (known_client nm) ua True))"
  by (induction names) (auto split: option.splits)

lemma known_loop_None_iff:
  "known_loop ps ua = None \<longleftrightarrow> (\<forall>p\<in>set ps. re_search p ua True = None)"
  by (induction ps) (auto split: option.splits)

lemma known_here_nonempty: "known_here name s \<Longrightarrow> s \<noteq> []"
  by (auto simp: known_here_def)

lemma known_name_first:
  assumes "find (\<lambda>nm. re_search (known_client nm) ua True \<noteq> None) client_names = Some name"
  shows "\<exists>i\<le>length ua. known_here name (drop i ua)
           \<and> extract_client_name ua = Inr (Some (take (length name) (drop i ua)))"
proof -
  from assms obtain m where m: "re_search (known_client name) ua True = Some m"
    by (auto simp: find_Some_iff)
  from re_search_known_client[OF m] obtain i where i: "i \<le> length ua"
    "known_here name (drop i ua)"
    "m = \<lparr>re_groups = 1, group1_text = Some (take (length name) (drop i ua))\<rparr>" by blast
  from i(2) have ne: "ua \<noteq> []" using known_here_nonempty by fastforce
  have "known_loop client_patterns ua = Some (group1 m)"
    unfolding client_patterns_def known_loop_names using assms m by simp
  with ne i(3) have "extract_client_name ua = Inr (Some (take (length name) (drop i ua)))"
    by (simp add: extract_client_name_def group1_def)
  with i(1,2) show ?thesis by blast
qed

lemma unknown_is_no_known_name:
  "name \<in> set client_names \<Longrightarrow> \<not> list_all2 ignorecase_eq (cps name) (cps ''Unknown'')"
  by (auto simp: client_names_def cps_def ignorecase_eq_def ascii_lower_def)

lemma unknown_token:
  assumes "\<forall>p\<in>set client_patterns. re_search p (cps ''Unknown/'' @ rest) True = None"
  shows "extract_client_name (cps ''Unknown/'' @ rest) = Inr (Some (cps ''Unknown''))"
proof -
  have "known_loop client_patterns (cps ''Unknown/'' @ rest) = None"
    using assms by (simp add: known_loop_None_iff)
  moreover have "re_search product_pattern (cps ''Unknown/'' @ rest) False =
      Some \<lparr>re_groups = 1, group1_text = Some (cps ''Unknown'')\<rparr>"
    by (simp add: re_search_product_pattern match_at_product_pattern cps_def alpha_def
          name_char_def)
  ultimately show ?thesis
    by (simp add: extract_client_name_def group1_def cps_def)
qed

lemmas route_eval = cps_def str_def seq_def match_at_def re_match_def chr_eq_def not_colon_def
  API_PATTERNS_def lastindex_def truthy_def group1_def

lemma find_Some_holds: "find P xs = Some x \<Longrightarrow> x \<in> set xs \<and> P x"
  by (induction xs) (auto split: if_splits)

lemma route_loop_None:
  "\<forall>pm\<in>set ps. re_match (fst pm) path False = None \<Longrightarrow> route_loop ps path ua = Inr None"
  by (induction ps) auto

lemma length_cps: "length (cps s) = length s"
  by (simp add: cps_def)

lemma lit_prefix_self: "lit_prefix False name (cps name @ s)"
  by (simp add: lit_prefix_def length_cps chr_eq_def list_all2_same)

lemma bt_str_self:
  "bt False (str name) n (cps name @ s) g k = k (n + length name) s g"
  by (simp add: bt_str lit_prefix_self length_cps)

lemma colon_commit:
  "not_colon c \<Longrightarrow> bt False (str '':'') n' (c # t') g k = None"
  by (simp add: bt_str lit_prefix_Cons not_colon_def chr_eq_def)

lemma model_segment:
  assumes "m \<noteq> []" and "of_char CHR '':'' \<notin> set m"
  shows "bt False (Grp (Plus not_colon)) n (m @ cps '':'' @ rest) g
            (\<lambda>n' s' g'. bt False (str '':'') n' s' g' k)
         = k (n + length m + 1) rest (Some m)"
proof -
  have run: "\<forall>c\<in>set m. not_colon c" "\<not> not_colon (of_char CHR '':'')"
    using assms(2) by (auto simp: not_colon_def)
  have "bt False (Grp (Plus not_colon)) n (m @ cps '':'' @ rest) g
            (\<lambda>n' s' g'. bt False (str '':'') n' s' g' k)
        = bt False (Plus not_colon) n (m @ of_char CHR '':'' # rest) g
            (\<lambda>n' s' g'. bt False (str '':'') n' s' (Some (take (n' - n) (m @ cps '':'' @ rest))) k)"
    by (simp add: cps_def)
  also have "\<dots> = bt False (str '':'') (n + length m) (of_char CHR '':'' # rest)
                     (Some (take (n + length m - n) (m @ cps '':'' @ rest))) k"
    by (rule bt_Plus_run[OF assms(1) run]) (rule colon_commit)
  also have "\<dots> = k (n + length m + 1) rest (Some m)"
    by (simp add: bt_str lit_prefix_Cons lit_prefix_Nil chr_eq_def)
  finally show ?thesis .
qed

lemma model_route_match:
  assumes "m \<noteq> []" and "of_char CHR '':'' \<notin> set m"
  shows "re_match (seq [Bol, str pre, Opt (str ''beta''), str ''/models/'',
                        Grp (Plus not_colon), str '':''])
           (cps pre @ cps ''beta'' @ cps ''/models/'' @ m @ cps '':'' @ rest) False
         = Some \<lparr>re_groups = 1, group1_text = Some m\<rparr>"
    and "re_match (seq [Bol, str pre, Opt (str ''beta''), str ''/models/'',
                        Grp (Plus not_colon), str '':''])
           (cps pre @ cps ''/models/'' @ m @ cps '':'' @ rest) False
         = Some \<lparr>re_groups = 1, group1_text = Some m\<rparr>"
proof -
  have nb: "\<not> lit_prefix False ''beta'' (cps ''/models/'' @ s)" for s
    by (simp add: lit_prefix_Cons cps_def chr_eq_def)
  note seg = model_segment[OF assms]
  show "re_match (seq [Bol, str pre, Opt (str ''beta''), str ''/models/'',
                        Grp (Plus not_colon), str '':''])
           (cps pre @ cps ''beta'' @ cps ''/models/'' @ m @ cps '':'' @ rest) False
         = Some \<lparr>re_groups = 1, group1_text = Some m\<rparr>"
    by (simp add: re_match_def match_at_def seq_def bt_str_self seg ngroups_str
          del: bt.simps(8))
  show "re_match (seq [Bol, str pre, Opt (str ''beta''), str ''/models/'',
                        Grp (Plus not_colon), str '':''])
           (cps pre @ cps ''/models/'' @ m @ cps '':'' @ rest) False
         = Some \<lparr>re_groups = 1, group1_text = Some m\<rparr>"
    by (simp add: re_match_def match_at_def seq_def bt_str_self seg ngroups_str bt_str[of _ "''beta''"] nb
          del: bt.simps(8))
qed

lemma model_route_parse:
  assumes "m \<noteq> []" and "of_char CHR '':'' \<notin> set m"
    and t: "extract_client_name ua = Inr c"
  shows "parse_request_info (cps ''/antigravity/v1'' @ cps ''beta'' @ cps ''/models/'' @ m @ cps '':'' @ rest) ua
           = Inr (Some (cps ''antigravity'', Some m, c))"
    and "parse_request_info (cps ''/antigravity/v1'' @ cps ''/models/'' @ m @ cps '':'' @ rest) ua
           = Inr (Some (cps ''antigravity'', Some m, c))"
    and "parse_request_info (cps ''/v1'' @ cps ''beta'' @ cps ''/models/'' @ m @ cps '':'' @ rest) ua
           = Inr (Some (cps ''geminicli'', Some m, c))"
    and "parse_request_info (cps ''/v1'' @ cps ''/models/'' @ m @ cps '':'' @ rest) ua
           = Inr (Some (cps ''geminicli'', Some m, c))"
proof -
  note hit = model_route_match[OF assms(1,2)]
  have n1: "re_match (seq [Bol, str ''/antigravity/v1'', Opt (str ''beta''), str ''/models/'',
                        Grp (Plus not_colon), str '':'']) (cps ''/v1'' @ s) False = None" for s
    by (simp add: route_eval)
  have n2: "re_match (seq [Bol, str ''/antigravity/v1/chat/completions'']) (cps ''/v1'' @ s) False
              = None" for s
    by (simp add: route_eval)
  have n3: "re_match (seq [Bol, str ''/antigravity/v1/messages'']) (cps ''/v1'' @ s) False
              = None" for s
    by (simp add: route_eval)
  note step = parse_request_info_def API_PATTERNS_def route_loop.simps hit n1 n2 n3
    option.case
  show "parse_request_info (cps ''/antigravity/v1'' @ cps ''beta'' @ cps ''/models/'' @ m @ cps '':'' @ rest) ua
           = Inr (Some (cps ''antigravity'', Some m, c))"
    by (simp only: step) (simp add: lastindex_def truthy_def group1_def t)
  show "parse_request_info (cps ''/antigravity/v1'' @ cps ''/models/'' @ m @ cps '':'' @ rest) ua
           = Inr (Some (cps ''antigravity'', Some m, c))"
    by (simp only: step) (simp add: lastindex_def truthy_def group1_def t)
  show "parse_request_info (cps ''/v1'' @ cps ''beta'' @ cps ''/models/'' @ m @ cps '':'' @ rest) ua
           = Inr (Some (cps ''geminicli'', Some m, c))"
    by (simp only: step) (simp add: lastindex_def truthy_def group1_def t)
  show "parse_request_info (cps ''/v1'' @ cps ''/models/'' @ m @ cps '':'' @ rest) ua
           = Inr (Some (cps ''geminicli'', Some m, c))"
    by (simp only: step) (simp add: lastindex_def truthy_def group1_def t)
qed

lemma literal_route_parse:
  assumes t: "extract_client_name ua = Inr c"
  shows "parse_request_info (cps ''/antigravity/v1/chat/completions'' @ rest) ua
           = Inr (Some (cps ''antigravity'', Some (cps ''chat''), c))"
    and "parse_request_info (cps ''/antigravity/v1/messages'' @ rest) ua
           = Inr (Some (cps ''antigravity'', Some (cps ''chat''), c))"
    and "parse_request_info (cps ''/v1/chat/completions'' @ rest) ua
           = Inr (Some (cps ''geminicli'', Some (cps ''chat''), c))"
    and "parse_request_info (cps ''/v1/messages'' @ rest) ua
           = Inr (Some (cps ''geminicli'', Some (cps ''chat''), c))"
  by (simp_all add: parse_request_info_def t route_eval)

lemma search_from_leftmost:
  "search_from ic r n s = Some m \<Longrightarrow>
   \<exists>i\<le>length s. match_at ic r (n + i) (drop i s) = Some m
      \<and> (\<forall>j<i. match_at ic r (n + j) (drop j s) = None)"
proof (induction s arbitrary: n)
  case Nil
  then show ?case by simp
next
  case (Cons x t)
  show ?case
  proof (cases "match_at ic r n (x # t)")
    case (Some y)
    with Cons.prems have "match_at ic r (n + 0) (drop 0 (x # t)) = Some m" by simp
    then show ?thesis by (intro exI[of _ 0]) simp
  next
    case None
    with Cons.prems have "search_from ic r (Suc n) t = Some m" by simp
    from Cons.IH[OF this] obtain i where i: "i \<le> length t"
      "match_at ic r (Suc n + i) (drop i t) = Some m"
      "\<forall>j<i. match_at ic r (Suc n + j) (drop j t) = None"
      by blast
    have "match_at ic r (n + j) (drop j (x # t)) = None" if "j < Suc i" for j
    proof (cases j)
      case 0
      with None show ?thesis by simp
    next
      case (Suc j')
      with that i(3) show ?thesis by simp
    qed
    with i(1,2) show ?thesis by (intro exI[of _ "Suc i"]) simp
  qed
qed

lemma re_search_known_client_leftmost:
  assumes "re_search (known_client name) ua True = Some m"
  shows "\<exists>i\<le>length ua. known_here name (drop i ua)
           \<and> (\<forall>j<i. \<not> known_here name (drop j ua))
           \<and> m = \<lparr>re_groups = 1, group1_text = Some (take (length name) (drop i ua))\<rparr>"
proof -
  from search_from_leftmost[OF assms[unfolded re_search_def]] obtain i where i: "i \<le> length ua"
    "match_at True (known_client name) (0 + i) (drop i ua) = Some m"
    "\<forall>j<i. match_at True (known_client name) (0 + j) (drop j ua) = None"
    by blast
  from i(2) have "known_here name (drop i ua)"
    and "m = \<lparr>re_groups = 1, group1_text = Some (take (length name) (drop i ua))\<rparr>"
    by (auto simp: match_at_known_client split: if_splits)
  moreover from i(3) have "\<forall>j<i. \<not> known_here name (drop j ua)"
    by (auto simp: match_at_known_client split: if_splits)
  ultimately show ?thesis using i(1) by blast
qed

lemma known_here_slash:
  "known_here name s \<Longrightarrow> of_char CHR ''/'' \<in> set s"
proof -
  assume "known_here name s"
  then obtain d t where "drop (length name) s = of_char CHR ''/'' # d # t"
    by (auto simp: known_here_def split: list.splits)
  then have "of_char CHR ''/'' \<in> set (drop (length name) s)" by simp
  then show ?thesis by (rule in_set_dropD)
qed

lemma no_slash_browser:
  assumes "user_agent \<noteq> []" and "of_char CHR ''/'' \<notin> set user_agent"
  shows "extract_client_name user_agent = Inr (Some (cps ''Browser''))"
proof -
  have "re_search p user_agent True = None" if "p \<in> set client_patterns" for p
  proof (rule ccontr)
    assume "re_search p user_agent True \<noteq> None"
    then obtain m where m: "re_search p user_agent True = Some m" by auto
    from that obtain name where "p = known_client name" by (auto simp: client_patterns_def)
    with re_search_known_client[of name user_agent m] m obtain i where
      "known_here name (drop i user_agent)" by blast
    from known_here_slash[OF this] have "of_char CHR ''/'' \<in> set user_agent"
      by (rule in_set_dropD)
    with assms(2) show False by simp
  qed
  then have k: "known_loop client_patterns user_agent = None"
    by (simp add: known_loop_None_iff)
  have "re_search product_pattern user_agent False = None"
    using product_pattern_iff[of user_agent] assms(2) by auto
  with k assms(1) show ?thesis by (simp add: extract_client_name_def)
qed

lemma nonletter_browser:
  assumes "user_agent \<noteq> []" and "\<not> alpha (hd user_agent)"
    and "\<forall>p\<in>set client_patterns. re_search p user_agent True = None"
  shows "extract_client_name user_agent = Inr (Some (cps ''Browser''))"
proof -
  have k: "known_loop client_patterns user_agent = None"
    using assms(3) by (simp add: known_loop_None_iff)
  have "re_search product_pattern user_agent False = None"
    using product_pattern_iff[of user_agent] assms(2) by auto
  with k assms(1) show ?thesis by (simp add: extract_client_name_def)
qed

lemma py_space_no_slash: "list_all py_space s \<Longrightarrow> of_char CHR ''/'' \<notin> set s"
  by (auto simp: list_all_iff py_space_def)

lemma unknown_result_cases:
  "(extract_client_name user_agent = Inr (Some (cps ''Unknown'')) \<longleftrightarrow>
      user_agent = []
      \<or> ((\<forall>p\<in>set client_patterns. re_search p user_agent True = None)
          \<and> (\<exists>rest. user_agent = cps ''Unknown/'' @ rest)))
   \<and> extract_client_name (cps '' '') = Inr (Some (cps ''Browser''))
   \<and> extract_client_name (cps ''1client/2.0'') = Inr (Some (cps ''Browser''))"
proof (intro conjI iffI)
  show "extract_client_name (cps '' '') = Inr (Some (cps ''Browser''))"
    by (simp add: client_eval)
  show "extract_client_name (cps ''1client/2.0'') = Inr (Some (cps ''Browser''))"
    by (simp add: client_eval)
next
  assume "user_agent = []
      \<or> ((\<forall>p\<in>set client_patterns. re_search p user_agent True = None)
          \<and> (\<exists>rest. user_agent = cps ''Unknown/'' @ rest))"
  then show "extract_client_name user_agent = Inr (Some (cps ''Unknown''))"
  proof
    assume "user_agent = []"
    then show ?thesis by (simp add: extract_client_name_def)
  next
    assume "(\<forall>p\<in>set client_patterns. re_search p user_agent True = None)
          \<and> (\<exists>rest. user_agent = cps ''Unknown/'' @ rest)"
    then show ?thesis using unknown_token by blast
  qed
next
  assume r: "extract_client_name user_agent = Inr (Some (cps ''Unknown''))"
  show "user_agent = []
      \<or> ((\<forall>p\<in>set client_patterns. re_search p user_agent True = None)
          \<and> (\<exists>rest. user_agent = cps ''Unknown/'' @ rest))"
  proof (cases "user_agent = []")
    case True
    then show ?thesis by simp
  next
    case False
    show ?thesis
    proof (cases "known_loop client_patterns user_agent")
      case (Some res)
      from known_loop_Some[OF Some[unfolded client_patterns_def]] obtain name i where
        n: "name \<in> set client_names" "known_here name (drop i user_agent)"
           "res = Inr (Some (take (length name) (drop i user_agent)))" by blast
      from Some False r n(3) have "take (length name) (drop i user_agent) = cps ''Unknown''"
        by (simp add: extract_client_name_def)
      with known_here_text[OF n(2)] have "list_all2 ignorecase_eq (cps name) (cps ''Unknown'')"
        by simp
      with unknown_is_no_known_name[OF n(1)] show ?thesis by simp
    next
      case None
      then have nk: "\<forall>p\<in>set client_patterns. re_search p user_agent True = None"
        by (simp add: known_loop_None_iff)
      have "cps ''Browser'' \<noteq> cps ''Unknown''" by (simp add: cps_def)
      with None False r obtain m where m: "re_search product_pattern user_agent False = Some m"
        "group1 m = Inr (Some (cps ''Unknown''))"
        by (auto simp: extract_client_name_def split: option.splits)
      from product_pattern_text[OF m(1)] obtain nm rest where
        t: "group1_text m = Some nm" "re_groups m = 1" "user_agent = nm @ of_char CHR ''/'' # rest"
        by blast
      from m(2) t(1,2) have "nm = cps ''Unknown''" by (simp add: group1_def)
      with t(3) have "user_agent = cps ''Unknown/'' @ rest" by (simp add: cps_def)
      with nk show ?thesis by blast
    qed
  qed
qed

section \<open>The claims\<close>

text \<open>
  C1 (as stated, false). The claim: whenever a known-client pattern matches, the result is
  the product name in the casing of the pattern. The code returns \<open>match.group(1)\<close>, which
  is text of the subject: for \<open>cherrystudio/1.7.13\<close> the result is \<open>cherrystudio\<close>.
\<close>

theorem known_client_case_counterexample:
  "re_search (known_client ''CherryStudio'') (cps ''cherrystudio/1.7.13'') True \<noteq> None
   \<and> extract_client_name (cps ''cherrystudio/1.7.13'') = Inr (Some (cps ''cherrystudio''))
   \<and> cps ''cherrystudio'' \<noteq> cps ''CherryStudio''"
  by (simp add: client_eval)

text \<open>
  C1 (amended). Whenever a known-client pattern matches the User-Agent, the result is
  exactly the text that group 1 of the first pattern of the list that is found captured:
  the piece of the User-Agent, as long as the product name, at the leftmost position where
  that pattern matches. It equals the product name up to letter case under
  \<open>re.IGNORECASE\<close>, in the casing of the input.
\<close>

theorem known_client_text_of_input:
  assumes "p \<in> set client_patterns" and "re_search p user_agent True \<noteq> None"
  shows "\<exists>name m i t.
           find (\<lambda>nm. re_search (known_client nm) user_agent True \<noteq> None) client_names
             = Some name
           \<and> re_search (known_client name) user_agent True = Some m
           \<and> group1_text m = Some t
           \<and> extract_client_name user_agent = Inr (Some t)
           \<and> i \<le> length user_agent
           \<and> known_here name (drop i user_agent)
           \<and> (\<forall>j<i. \<not> known_here name (drop j user_agent))
           \<and> t = take (length name) (drop i user_agent)
           \<and> sublist t user_agent
           \<and> list_all2 ignorecase_eq (cps name) t"
proof -
  from assms obtain nm where "nm \<in> set client_names"
    "re_search (known_client nm) user_agent True \<noteq> None"
    by (auto simp: client_patterns_def)
  then have "find (\<lambda>nm. re_search (known_client nm) user_agent True \<noteq> None) client_names \<noteq> None"
    by (auto simp: find_None_iff)
  then obtain name where
    name: "find (\<lambda>nm. re_search (known_client nm) user_agent True \<noteq> None) client_names
             = Some name" by auto
  from find_Some_holds[OF name] obtain m where
    m: "re_search (known_client name) user_agent True = Some m" by auto
  from re_search_known_client_leftmost[OF m] obtain i where i: "i \<le> length user_agent"
    "known_here name (drop i user_agent)"
    "\<forall>j<i. \<not> known_here name (drop j user_agent)"
    "m = \<lparr>re_groups = 1, group1_text = Some (take (length name) (drop i user_agent))\<rparr>"
    by blast
  let ?t = "take (length name) (drop i user_agent)"
  from i(2) have ne: "user_agent \<noteq> []" using known_here_nonempty by fastforce
  have "known_loop client_patterns user_agent = Some (group1 m)"
    unfolding client_patterns_def known_loop_names using name m by simp
  with ne i(4) have e: "extract_client_name user_agent = Inr (Some ?t)"
    by (simp add: extract_client_name_def group1_def)
  have g: "group1_text m = Some ?t" using i(4) by simp
  have s: "sublist ?t user_agent" by (rule sublist_take_drop)
  have c: "list_all2 ignorecase_eq (cps name) ?t" by (rule known_here_text[OF i(2)])
  show ?thesis
    using name m g e i(1,2,3) s c
    by (intro exI[of _ name] exI[of _ m] exI[of _ i] exI[of _ ?t]) simp
qed

theorem known_client_text_of_input_witness:
  "extract_client_name (cps ''CURL curl/1'') = Inr (Some (cps ''curl''))"
proof -
  let ?ua = "cps ''CURL curl/1''"
  have h1: "known_client ''curl'' \<in> set client_patterns"
    by (simp add: client_patterns_def client_names_def)
  have h2: "re_search (known_client ''curl'') ?ua True \<noteq> None"
    by (simp add: client_eval)
  from known_client_text_of_input[OF h1 h2] obtain name m t where
    f: "find (\<lambda>nm. re_search (known_client nm) ?ua True \<noteq> None) client_names = Some name"
    and m: "re_search (known_client name) ?ua True = Some m"
    and g: "group1_text m = Some t"
    and e: "extract_client_name ?ua = Inr (Some t)" by blast
  have "find (\<lambda>nm. re_search (known_client nm) ?ua True \<noteq> None) client_names = Some ''curl''"
    by (simp add: client_eval)
  with f have n: "name = ''curl''" by simp
  have "re_search (known_client ''curl'') ?ua True
          = Some \<lparr>re_groups = 1, group1_text = Some (cps ''curl'')\<rparr>"
    by (simp add: client_eval)
  with m n g have "t = cps ''curl''" by auto
  with e show ?thesis by simp
qed

text \<open>
  C2. The path \<open>/antigravity/v1beta/models/gemini-3-flash:streamGenerateContent\<close> is
  classified as antigravity with model \<open>gemini-3-flash\<close>, and \<open>/v1/chat/completions\<close> as
  geminicli with model \<open>chat\<close>. In general the model is the text of group 1 when the
  pattern that matched has a group, and \<open>chat\<close> otherwise.
\<close>

theorem route_model_rule:
  "(\<exists>client. extract_client_name user_agent = Inr client
      \<and> parse_request_info
           (cps ''/antigravity/v1beta/models/gemini-3-flash:streamGenerateContent'') user_agent
          = Inr (Some (cps ''antigravity'', Some (cps ''gemini-3-flash''), client))
      \<and> parse_request_info (cps ''/v1/chat/completions'') user_agent
          = Inr (Some (cps ''geminicli'', Some (cps ''chat''), client)))
   \<and> (find (\<lambda>pm. re_match (fst pm) path False \<noteq> None) API_PATTERNS = Some (pattern, mode)
      \<longrightarrow> (\<exists>m client. re_match pattern path False = Some m
             \<and> extract_client_name user_agent = Inr client
             \<and> parse_request_info path user_agent =
                 Inr (Some (mode,
                       (if 0 < ngroups pattern then group1_text m else Some (cps ''chat'')),
                       client))
             \<and> (0 < ngroups pattern \<longrightarrow> group1_text m \<noteq> None)))"
proof -
  obtain t where t: "extract_client_name user_agent = Inr (Some t)"
    using extract_client_name_str by blast
  have 1: "parse_request_info
           (cps ''/antigravity/v1beta/models/gemini-3-flash:streamGenerateContent'') user_agent
          = Inr (Some (cps ''antigravity'', Some (cps ''gemini-3-flash''), Some t))"
    by (simp add: parse_request_info_def t route_eval)
  have 2: "parse_request_info (cps ''/v1/chat/completions'') user_agent
          = Inr (Some (cps ''geminicli'', Some (cps ''chat''), Some t))"
    by (simp add: parse_request_info_def t route_eval)
  have 3: "\<exists>m client. re_match pattern path False = Some m
             \<and> extract_client_name user_agent = Inr client
             \<and> parse_request_info path user_agent =
                 Inr (Some (mode,
                       (if 0 < ngroups pattern then group1_text m else Some (cps ''chat'')),
                       client))
             \<and> (0 < ngroups pattern \<longrightarrow> group1_text m \<noteq> None)"
    if f: "find (\<lambda>pm. re_match (fst pm) path False \<noteq> None) API_PATTERNS = Some (pattern, mode)"
  proof -
    from find_Some_holds[OF f] have mem: "(pattern, mode) \<in> set API_PATTERNS"
      and "re_match pattern path False \<noteq> None"
      by simp_all
    then obtain m where m: "re_match pattern path False = Some m" by auto
    have g: "0 < ngroups pattern \<longrightarrow> group1_text m \<noteq> None"
      using API_PATTERNS_shape(1)[OF mem] match_at_group(3)[OF m[unfolded re_match_def]]
      by auto
    have "parse_request_info path user_agent =
          Inr (Some (mode,
                (if 0 < ngroups pattern then group1_text m else Some (cps ''chat'')), Some t))"
      using f m by (simp add: parse_request_info_find[OF t])
    with m t g show ?thesis
      by (intro exI[of _ m] exI[of _ "Some t"]) simp
  qed
  from t 1 2 have "\<exists>client. extract_client_name user_agent = Inr client
      \<and> parse_request_info
           (cps ''/antigravity/v1beta/models/gemini-3-flash:streamGenerateContent'') user_agent
          = Inr (Some (cps ''antigravity'', Some (cps ''gemini-3-flash''), client))
      \<and> parse_request_info (cps ''/v1/chat/completions'') user_agent
          = Inr (Some (cps ''geminicli'', Some (cps ''chat''), client))"
    by (intro exI[of _ "Some t"]) simp
  with 3 show ?thesis by (intro conjI impI)
qed

theorem route_model_rule_witness:
  "parse_request_info (cps ''/v1/models/gemini-2.5-pro:generateContent'') (cps ''curl/8.0'')
     = Inr (Some (cps ''geminicli'', Some (cps ''gemini-2.5-pro''), Some (cps ''curl'')))"
proof -
  let ?path = "cps ''/v1/models/gemini-2.5-pro:generateContent''"
  let ?p = "seq [Bol, str ''/v1'', Opt (str ''beta''), str ''/models/'',
                 Grp (Plus not_colon), str '':'']"
  have f: "find (\<lambda>pm. re_match (fst pm) ?path False \<noteq> None) API_PATTERNS
             = Some (?p, cps ''geminicli'')"
    by (simp add: route_eval)
  have m: "re_match ?p ?path False =
             Some \<lparr>re_groups = 1, group1_text = Some (cps ''gemini-2.5-pro'')\<rparr>"
    by (simp add: route_eval)
  have n: "0 < ngroups ?p" by (simp add: seq_def)
  have c: "extract_client_name (cps ''curl/8.0'') = Inr (Some (cps ''curl''))"
    by (simp add: client_eval)
  from route_model_rule[of "cps ''curl/8.0''" ?path ?p "cps ''geminicli''"] f m n c
  show ?thesis by auto
qed

text \<open>
  C3. When no route pattern matches the path, \<open>parse_request_info\<close> returns \<open>None\<close> and
  \<open>dispatch\<close> adds no line to the log: the only event it adds is the call of the
  continuation.
\<close>

theorem unmatched_path_silent:
  assumes "\<forall>pm\<in>set API_PATTERNS. re_match (fst pm) (url_path req) False = None"
  shows "parse_request_info (url_path req) user_agent = Inr None
         \<and> dispatch req call_next trace = Inr (call_next req, trace @ [CallNext req])"
proof -
  have "\<And>ua. parse_request_info (url_path req) ua = Inr None"
    unfolding parse_request_info_def by (rule route_loop_None[OF assms])
  then show ?thesis by (simp add: dispatch_unmatched)
qed

theorem unmatched_path_silent_witness:
  "parse_request_info (cps ''/health'') (cps ''curl/8.0'') = Inr None
   \<and> dispatch \<lparr>url_path = cps ''/health'', headers = [(cps ''user-agent'', cps ''curl/8.0'')]\<rparr>
        (\<lambda>r. length (url_path r)) []
      = Inr (7, [CallNext \<lparr>url_path = cps ''/health'',
                   headers = [(cps ''user-agent'', cps ''curl/8.0'')]\<rparr>])"
proof -
  let ?req = "\<lparr>url_path = cps ''/health'', headers = [(cps ''user-agent'', cps ''curl/8.0'')]\<rparr>"
  have h: "\<forall>pm\<in>set API_PATTERNS. re_match (fst pm) (url_path ?req) False = None"
    by (simp add: route_eval)
  from unmatched_path_silent[OF h, of "cps ''curl/8.0''" "\<lambda>r. length (url_path r)" "[]"]
  show ?thesis by (simp add: cps_def)
qed

text \<open>
  C4. The empty User-Agent gives \<open>Unknown\<close>. A non-empty User-Agent that no known-client
  pattern matches and that does not begin with a product token (a letter, then letters,
  digits, underscores or hyphens, then a slash) gives \<open>Browser\<close>, as
  \<open>SomeWeirdClient\<close> does. The result is always a string, never \<open>None\<close>.
\<close>

theorem sentinel_results:
  "extract_client_name [] = Inr (Some (cps ''Unknown''))
   \<and> (user_agent \<noteq> [] \<and> (\<forall>p\<in>set client_patterns. re_search p user_agent True = None)
        \<and> \<not> (\<exists>x nm rest. user_agent = x # nm @ of_char CHR ''/'' # rest
                 \<and> alpha x \<and> list_all name_char nm)
      \<longrightarrow> extract_client_name user_agent = Inr (Some (cps ''Browser'')))
   \<and> extract_client_name (cps ''SomeWeirdClient'') = Inr (Some (cps ''Browser''))
   \<and> (\<exists>t. extract_client_name user_agent = Inr (Some t))"
proof (intro conjI impI)
  show "extract_client_name [] = Inr (Some (cps ''Unknown''))"
    by (simp add: extract_client_name_def)
  show "extract_client_name (cps ''SomeWeirdClient'') = Inr (Some (cps ''Browser''))"
    by (simp add: client_eval)
  show "\<exists>t. extract_client_name user_agent = Inr (Some t)"
    by (rule extract_client_name_str)
next
  assume a: "user_agent \<noteq> [] \<and> (\<forall>p\<in>set client_patterns. re_search p user_agent True = None)
        \<and> \<not> (\<exists>x nm rest. user_agent = x # nm @ of_char CHR ''/'' # rest
                 \<and> alpha x \<and> list_all name_char nm)"
  then have "known_loop client_patterns user_agent = None"
    by (simp add: known_loop_None_iff)
  moreover from a have "re_search product_pattern user_agent False = None"
    using product_pattern_iff[of user_agent] by blast
  ultimately show "extract_client_name user_agent = Inr (Some (cps ''Browser''))"
    using a by (simp add: extract_client_name_def)
qed

theorem sentinel_results_witness:
  "extract_client_name (cps ''Mozilla 5.0'') = Inr (Some (cps ''Browser''))"
proof -
  let ?ua = "cps ''Mozilla 5.0''"
  have h1: "?ua \<noteq> []" by (simp add: cps_def)
  have h2: "\<forall>p\<in>set client_patterns. re_search p ?ua True = None"
    by (simp add: client_eval)
  have "re_search product_pattern ?ua False = None"
    by (simp add: client_eval)
  then have h3: "\<not> (\<exists>x nm rest. ?ua = x # nm @ of_char CHR ''/'' # rest
                 \<and> alpha x \<and> list_all name_char nm)"
    using product_pattern_iff[of ?ua] by blast
  from sentinel_results[of ?ua] h1 h2 h3 show ?thesis by blast
qed

text \<open>
  C5. Both tables are scanned in their declared order and the first rule that matches
  decides. \<open>parse_request_info\<close> returns the mode and model of the first route pattern
  that matches the path; \<open>extract_client_name\<close> returns group 1 of the first known-client
  pattern that is found, whatever the generic product pattern would give. So
  \<open>python-requests/2.28.0\<close> gives \<open>python-requests\<close> through the known-client list,
  \<open>Electron/30.0 Cursor/2.1.0\<close> gives \<open>Cursor\<close> (listed before Electron), and
  \<open>Mozilla/5.0 curl/8.0\<close> gives \<open>curl\<close>, not the leading token.
\<close>

theorem first_match_wins:
  "(find (\<lambda>pm. re_match (fst pm) path False \<noteq> None) API_PATTERNS = None
      \<longrightarrow> parse_request_info path user_agent = Inr None)
   \<and> (find (\<lambda>pm. re_match (fst pm) path False \<noteq> None) API_PATTERNS = Some (pattern, mode)
      \<longrightarrow> (\<exists>m client. re_match pattern path False = Some m
             \<and> extract_client_name user_agent = Inr client
             \<and> parse_request_info path user_agent =
                 Inr (Some (mode,
                       (if 0 < ngroups pattern then group1_text m else Some (cps ''chat'')),
                       client))))
   \<and> (find (\<lambda>q. re_search q user_agent True \<noteq> None) client_patterns = Some q
      \<longrightarrow> (\<exists>m. re_search q user_agent True = Some m
             \<and> extract_client_name user_agent = Inr (group1_text m)))
   \<and> known_loop client_patterns (cps ''python-requests/2.28.0'')
        = Some (Inr (Some (cps ''python-requests'')))
   \<and> extract_client_name (cps ''python-requests/2.28.0'') = Inr (Some (cps ''python-requests''))
   \<and> extract_client_name (cps ''Electron/30.0 Cursor/2.1.0'') = Inr (Some (cps ''Cursor''))
   \<and> extract_client_name (cps ''Mozilla/5.0 curl/8.0'') = Inr (Some (cps ''curl''))"
proof -
  obtain t where t: "extract_client_name user_agent = Inr (Some t)"
    using extract_client_name_str by blast
  have 1: "parse_request_info path user_agent = Inr None"
    if "find (\<lambda>pm. re_match (fst pm) path False \<noteq> None) API_PATTERNS = None"
    using that by (simp add: parse_request_info_find[OF t])
  have 2: "\<exists>m client. re_match pattern path False = Some m
             \<and> extract_client_name user_agent = Inr client
             \<and> parse_request_info path user_agent =
                 Inr (Some (mode,
                       (if 0 < ngroups pattern then group1_text m else Some (cps ''chat'')),
                       client))"
    if f: "find (\<lambda>pm. re_match (fst pm) path False \<noteq> None) API_PATTERNS = Some (pattern, mode)"
  proof -
    from find_Some_holds[OF f] obtain m where m: "re_match pattern path False = Some m"
      by auto
    have "parse_request_info path user_agent =
          Inr (Some (mode,
                (if 0 < ngroups pattern then group1_text m else Some (cps ''chat'')), Some t))"
      using f m by (simp add: parse_request_info_find[OF t])
    with m t show ?thesis by (intro exI[of _ m] exI[of _ "Some t"]) simp
  qed
  have 3: "\<exists>m. re_search q user_agent True = Some m
             \<and> extract_client_name user_agent = Inr (group1_text m)"
    if f: "find (\<lambda>q. re_search q user_agent True \<noteq> None) client_patterns = Some q"
  proof -
    from find_Some_holds[OF f] obtain m where q: "q \<in> set client_patterns"
      and m: "re_search q user_agent True = Some m" by auto
    from q obtain name where name: "q = known_client name" by (auto simp: client_patterns_def)
    from re_search_known_client[OF m[unfolded name]] obtain i where
      i: "known_here name (drop i user_agent)" "re_groups m = 1" "group1_text m \<noteq> None"
      by auto
    from i(1) have ne: "user_agent \<noteq> []" using known_here_nonempty by fastforce
    have "known_loop client_patterns user_agent = Some (group1 m)"
      using f m by (simp add: known_loop_find)
    with ne i(2) have "extract_client_name user_agent = Inr (group1_text m)"
      by (simp add: extract_client_name_def group1_def)
    with m show ?thesis by blast
  qed
  have 4: "known_loop client_patterns (cps ''python-requests/2.28.0'')
        = Some (Inr (Some (cps ''python-requests'')))"
    by (simp add: client_eval)
  have 5: "extract_client_name (cps ''python-requests/2.28.0'')
        = Inr (Some (cps ''python-requests''))"
    by (simp add: client_eval)
  have 6: "extract_client_name (cps ''Electron/30.0 Cursor/2.1.0'') = Inr (Some (cps ''Cursor''))"
    by (simp add: client_eval)
  have 7: "extract_client_name (cps ''Mozilla/5.0 curl/8.0'') = Inr (Some (cps ''curl''))"
    by (simp add: client_eval)
  from 1 2 3 4 5 6 7 show ?thesis by (intro conjI impI)
qed

theorem first_match_wins_witness:
  "extract_client_name (cps ''node-fetch/1.0 axios/0.27.2'') = Inr (Some (cps ''axios''))
   \<and> parse_request_info (cps ''/v1/messages'') (cps ''node-fetch/1.0 axios/0.27.2'')
       = Inr (Some (cps ''geminicli'', Some (cps ''chat''), Some (cps ''axios'')))
   \<and> parse_request_info (cps ''/favicon.ico'') (cps ''node-fetch/1.0 axios/0.27.2'') = Inr None"
proof -
  let ?ua = "cps ''node-fetch/1.0 axios/0.27.2''"
  let ?p = "seq [Bol, str ''/v1/messages'']"
  have f0: "find (\<lambda>pm. re_match (fst pm) (cps ''/favicon.ico'') False \<noteq> None) API_PATTERNS
              = None"
    by (simp add: route_eval)
  have f1: "find (\<lambda>pm. re_match (fst pm) (cps ''/v1/messages'') False \<noteq> None) API_PATTERNS
              = Some (?p, cps ''geminicli'')"
    by (simp add: route_eval)
  have n: "ngroups ?p = 0" by (simp add: seq_def ngroups_str)
  have f2: "find (\<lambda>q. re_search q ?ua True \<noteq> None) client_patterns
              = Some (known_client ''axios'')"
    by (simp add: client_eval)
  have m: "re_search (known_client ''axios'') ?ua True
             = Some \<lparr>re_groups = 1, group1_text = Some (cps ''axios'')\<rparr>"
    by (simp add: client_eval)
  have a: "extract_client_name ?ua = Inr (Some (cps ''axios''))"
    using first_match_wins[of "cps ''/favicon.ico''" ?ua ?p "cps ''geminicli''"
            "known_client ''axios''"] f2 m by auto
  have b: "parse_request_info (cps ''/favicon.ico'') ?ua = Inr None"
    using first_match_wins[of "cps ''/favicon.ico''" ?ua ?p "cps ''geminicli''"
            "known_client ''axios''"] f0 by blast
  obtain m' client where c: "re_match ?p (cps ''/v1/messages'') False = Some m'"
    "extract_client_name ?ua = Inr client"
    "parse_request_info (cps ''/v1/messages'') ?ua =
       Inr (Some (cps ''geminicli'',
             (if 0 < ngroups ?p then group1_text m' else Some (cps ''chat'')), client))"
    using first_match_wins[of "cps ''/v1/messages''" ?ua ?p "cps ''geminicli''"
            "known_client ''axios''"] f1 by blast
  have "parse_request_info (cps ''/v1/messages'') ?ua
       = Inr (Some (cps ''geminicli'', Some (cps ''chat''), Some (cps ''axios'')))"
    using c(2,3) n a by simp
  with a b show ?thesis by simp
qed


text \<open>
  C7. For a matched request the line given to \<open>log.info\<close> is the emoji, one space, the
  model, space, bar, space, and the client name, with nothing after it. The emoji is the
  rocket U+1F680 exactly when the mode is antigravity, and the sparkles U+2728 exactly
  when it is geminicli; model and client are strings.
\<close>

theorem log_line_format:
  assumes "parse_request_info (url_path req) (user_agent_of req)
             = Inr (Some (mode, model, client))"
  shows "\<exists>emoji m c. model = Some m \<and> client = Some c
           \<and> dispatch req call_next trace =
               Inr (call_next req,
                    trace @ [LogInfo (emoji @ cps '' '' @ m @ cps '' | '' @ c), CallNext req])
           \<and> (emoji = rocket) = (mode = cps ''antigravity'')
           \<and> (emoji = sparkles) = (mode = cps ''geminicli'')
           \<and> rocket = [0x1F680] \<and> sparkles = [0x2728]"
proof -
  from parse_request_info_cases[of "url_path req" "user_agent_of req"] assms
  obtain m c where mc: "model = Some m" "client = Some c"
    and mode: "mode = cps ''antigravity'' \<or> mode = cps ''geminicli''" by auto
  let ?emoji = "if mode = cps ''antigravity'' then rocket else sparkles"
  have d: "dispatch req call_next trace =
         Inr (call_next req,
              trace @ [LogInfo (?emoji @ cps '' '' @ m @ cps '' | '' @ c), CallNext req])"
    using dispatch_matched[OF assms, of call_next trace] mc by (simp add: fmt_def)
  have ne: "cps ''antigravity'' \<noteq> cps ''geminicli''" "rocket \<noteq> sparkles"
    by (simp_all add: cps_def rocket_def sparkles_def)
  have e: "(?emoji = rocket) = (mode = cps ''antigravity'')"
    "(?emoji = sparkles) = (mode = cps ''geminicli'')"
    using mode ne by auto
  show ?thesis
    using mc d e by (intro exI[of _ ?emoji] exI[of _ m] exI[of _ c])
      (simp add: rocket_def sparkles_def)
qed

theorem log_line_format_witness:
  "dispatch \<lparr>url_path = cps ''/antigravity/v1/messages'',
             headers = [(cps ''user-agent'', cps ''Cursor/2.1.0'')]\<rparr> (\<lambda>r. True) []
     = Inr (True,
            [LogInfo ([0x1F680] @ cps '' chat | Cursor''),
             CallNext \<lparr>url_path = cps ''/antigravity/v1/messages'',
                       headers = [(cps ''user-agent'', cps ''Cursor/2.1.0'')]\<rparr>])"
proof -
  let ?req = "\<lparr>url_path = cps ''/antigravity/v1/messages'',
              headers = [(cps ''user-agent'', cps ''Cursor/2.1.0'')]\<rparr>"
  have ua: "user_agent_of ?req = cps ''Cursor/2.1.0''"
    by (simp add: user_agent_of_def headers_get_def)
  have c: "extract_client_name (cps ''Cursor/2.1.0'') = Inr (Some (cps ''Cursor''))"
    by (simp add: client_eval)
  have h: "parse_request_info (url_path ?req) (user_agent_of ?req)
         = Inr (Some (cps ''antigravity'', Some (cps ''chat''), Some (cps ''Cursor'')))"
    unfolding ua by (subst parse_request_info_find[OF c]) (simp add: route_eval)
  from log_line_format[OF h, of "\<lambda>r. True" "[]"] show ?thesis
    by (auto simp: cps_def)
qed

text \<open>
  C8. \<open>extract_client_name\<close> and \<open>parse_request_info\<close> return normally on every path and
  every User-Agent: the only step that can raise, \<open>match.group(1)\<close>, is reached only with
  a match of a pattern that has the group, so the result is never the exception; and the
  client name is a string, never \<open>None\<close>. Both functions are defined by terminating
  recursion, so they return on strings of any length.
\<close>

theorem classification_never_raises:
  "(\<exists>t. extract_client_name user_agent = Inr (Some t))
   \<and> (\<exists>r. parse_request_info path user_agent = Inr r)"
proof
  show "\<exists>t. extract_client_name user_agent = Inr (Some t)"
    by (rule extract_client_name_str)
  show "\<exists>r. parse_request_info path user_agent = Inr r"
    using parse_request_info_cases[of path user_agent] by auto
qed

text \<open>
  C9. The route patterns are anchored at the start of the path only. A path that begins
  with one of the four literal routes is classified whatever follows, and a path that
  begins with a model route, a non-empty model without a colon, and a colon is classified
  with that model whatever follows. So \<open>/v1/chat/completions/anything\<close> and
  \<open>/v1/messagesExtra\<close> are geminicli with model \<open>chat\<close>, and \<open>dispatch\<close> logs a line
  for them.
\<close>

theorem route_prefix_only:
  "\<exists>client. extract_client_name user_agent = Inr client
     \<and> parse_request_info (cps ''/antigravity/v1/chat/completions'' @ rest) user_agent
          = Inr (Some (cps ''antigravity'', Some (cps ''chat''), client))
     \<and> parse_request_info (cps ''/antigravity/v1/messages'' @ rest) user_agent
          = Inr (Some (cps ''antigravity'', Some (cps ''chat''), client))
     \<and> parse_request_info (cps ''/v1/chat/completions'' @ rest) user_agent
          = Inr (Some (cps ''geminicli'', Some (cps ''chat''), client))
     \<and> parse_request_info (cps ''/v1/messages'' @ rest) user_agent
          = Inr (Some (cps ''geminicli'', Some (cps ''chat''), client))
     \<and> (m \<noteq> [] \<and> of_char CHR '':'' \<notin> set m \<longrightarrow>
          parse_request_info (cps ''/antigravity/v1beta/models/'' @ m @ cps '':'' @ rest) user_agent
            = Inr (Some (cps ''antigravity'', Some m, client))
        \<and> parse_request_info (cps ''/antigravity/v1/models/'' @ m @ cps '':'' @ rest) user_agent
            = Inr (Some (cps ''antigravity'', Some m, client))
        \<and> parse_request_info (cps ''/v1beta/models/'' @ m @ cps '':'' @ rest) user_agent
            = Inr (Some (cps ''geminicli'', Some m, client))
        \<and> parse_request_info (cps ''/v1/models/'' @ m @ cps '':'' @ rest) user_agent
            = Inr (Some (cps ''geminicli'', Some m, client)))
     \<and> parse_request_info (cps ''/v1/chat/completions/anything'') user_agent
          = Inr (Some (cps ''geminicli'', Some (cps ''chat''), client))
     \<and> parse_request_info (cps ''/v1/messagesExtra'') user_agent
          = Inr (Some (cps ''geminicli'', Some (cps ''chat''), client))
     \<and> ((url_path req = cps ''/v1/chat/completions/anything''
           \<or> url_path req = cps ''/v1/messagesExtra'')
          \<and> user_agent_of req = user_agent \<longrightarrow>
          dispatch req call_next trace =
            Inr (call_next req,
                 trace @ [LogInfo (sparkles @ cps '' chat | '' @ fmt client), CallNext req]))"
proof -
  obtain t where t: "extract_client_name user_agent = Inr (Some t)"
    using extract_client_name_str by blast
  note lit = literal_route_parse[OF t]
  have e1: "cps ''/v1/chat/completions/anything'' = cps ''/v1/chat/completions'' @ cps ''/anything''"
    and e2: "cps ''/v1/messagesExtra'' = cps ''/v1/messages'' @ cps ''Extra''"
    by (simp_all add: cps_def)
  have x1: "parse_request_info (cps ''/v1/chat/completions/anything'') user_agent
          = Inr (Some (cps ''geminicli'', Some (cps ''chat''), Some t))"
    unfolding e1 by (rule lit(3))
  have x2: "parse_request_info (cps ''/v1/messagesExtra'') user_agent
          = Inr (Some (cps ''geminicli'', Some (cps ''chat''), Some t))"
    unfolding e2 by (rule lit(4))
  have p: "cps ''/antigravity/v1beta/models/'' @ s
             = cps ''/antigravity/v1'' @ cps ''beta'' @ cps ''/models/'' @ s"
    "cps ''/antigravity/v1/models/'' @ s = cps ''/antigravity/v1'' @ cps ''/models/'' @ s"
    "cps ''/v1beta/models/'' @ s = cps ''/v1'' @ cps ''beta'' @ cps ''/models/'' @ s"
    "cps ''/v1/models/'' @ s = cps ''/v1'' @ cps ''/models/'' @ s" for s
    by (simp_all add: cps_def)
  have md: "parse_request_info (cps ''/antigravity/v1beta/models/'' @ m @ cps '':'' @ rest) user_agent
            = Inr (Some (cps ''antigravity'', Some m, Some t))
        \<and> parse_request_info (cps ''/antigravity/v1/models/'' @ m @ cps '':'' @ rest) user_agent
            = Inr (Some (cps ''antigravity'', Some m, Some t))
        \<and> parse_request_info (cps ''/v1beta/models/'' @ m @ cps '':'' @ rest) user_agent
            = Inr (Some (cps ''geminicli'', Some m, Some t))
        \<and> parse_request_info (cps ''/v1/models/'' @ m @ cps '':'' @ rest) user_agent
            = Inr (Some (cps ''geminicli'', Some m, Some t))"
    if "m \<noteq> [] \<and> of_char CHR '':'' \<notin> set m"
  proof -
    from that have a: "m \<noteq> []" and b: "of_char CHR '':'' \<notin> set m" by simp_all
    show ?thesis unfolding p using model_route_parse[OF a b t] by simp
  qed
  have d: "dispatch req call_next trace =
            Inr (call_next req,
                 trace @ [LogInfo (sparkles @ cps '' chat | '' @ fmt (Some t)), CallNext req])"
    if "(url_path req = cps ''/v1/chat/completions/anything''
           \<or> url_path req = cps ''/v1/messagesExtra'')
          \<and> user_agent_of req = user_agent"
  proof -
    from that x1 x2 have "parse_request_info (url_path req) (user_agent_of req)
          = Inr (Some (cps ''geminicli'', Some (cps ''chat''), Some t))" by auto
    from dispatch_matched[OF this, of call_next trace] show ?thesis
      by (simp add: fmt_def cps_def)
  qed
  show ?thesis
    using t lit[of rest] x1 x2 md d by (intro exI[of _ "Some t"]) simp
qed

theorem route_prefix_only_witness:
  "parse_request_info (cps ''/v1beta/models/gemini-3-flash:generateContent?alt=sse'')
       (cps ''Postman/10.0'')
     = Inr (Some (cps ''geminicli'', Some (cps ''gemini-3-flash''), Some (cps ''Postman'')))
   \<and> dispatch \<lparr>url_path = cps ''/v1/messagesExtra'',
                headers = [(cps ''user-agent'', cps ''Postman/10.0'')]\<rparr> (\<lambda>r. True) []
       = Inr (True,
              [LogInfo ([0x2728] @ cps '' chat | Postman''),
               CallNext \<lparr>url_path = cps ''/v1/messagesExtra'',
                         headers = [(cps ''user-agent'', cps ''Postman/10.0'')]\<rparr>])"
proof -
  let ?ua = "cps ''Postman/10.0''"
  let ?req = "\<lparr>url_path = cps ''/v1/messagesExtra'',
              headers = [(cps ''user-agent'', cps ''Postman/10.0'')]\<rparr>"
  let ?m = "cps ''gemini-3-flash''"
  let ?rest = "cps ''generateContent?alt=sse''"
  have c: "extract_client_name ?ua = Inr (Some (cps ''Postman''))"
    by (simp add: client_eval)
  have h1: "?m \<noteq> [] \<and> of_char CHR '':'' \<notin> set ?m" by (simp add: cps_def)
  have h2: "(url_path ?req = cps ''/v1/chat/completions/anything''
           \<or> url_path ?req = cps ''/v1/messagesExtra'') \<and> user_agent_of ?req = ?ua"
    by (simp add: user_agent_of_def headers_get_def)
  have e: "cps ''/v1beta/models/gemini-3-flash:generateContent?alt=sse''
             = cps ''/v1beta/models/'' @ ?m @ cps '':'' @ ?rest"
    by (simp add: cps_def)
  from route_prefix_only[of ?ua ?rest ?m ?req "\<lambda>r. True" "[]"] c h1 h2
  show ?thesis unfolding e by (auto simp: fmt_def sparkles_def cps_def)
qed

text \<open>
  C10 (as stated, false). The claim: \<open>Unknown\<close> is returned if and only if the User-Agent
  is empty. The non-empty User-Agent \<open>Unknown/1.0\<close> also gives \<open>Unknown\<close>, through the
  generic product pattern.
\<close>

theorem unknown_for_nonempty_counterexample:
  "cps ''Unknown/1.0'' \<noteq> []
   \<and> extract_client_name (cps ''Unknown/1.0'') = Inr (Some (cps ''Unknown''))"
  by (simp add: client_eval)

text \<open>
  C10 (amended). The result is \<open>Unknown\<close> exactly when the User-Agent is empty, or no
  known-client pattern matches it and it begins with \<open>Unknown/\<close>. A non-empty User-Agent
  made of whitespace only, such as one space, gives \<open>Browser\<close>. A non-empty User-Agent
  whose first character is not a letter and that no known-client pattern matches gives
  \<open>Browser\<close>, as \<open>1client/2.0\<close> does; \<open>1curl/2.0\<close> gives \<open>curl\<close>, through the
  known-client list.
\<close>

theorem unknown_result_exact:
  "(extract_client_name user_agent = Inr (Some (cps ''Unknown'')) \<longleftrightarrow>
      user_agent = []
      \<or> ((\<forall>p\<in>set client_patterns. re_search p user_agent True = None)
          \<and> (\<exists>rest. user_agent = cps ''Unknown/'' @ rest)))
   \<and> (user_agent \<noteq> [] \<and> list_all py_space user_agent
        \<longrightarrow> extract_client_name user_agent = Inr (Some (cps ''Browser'')))
   \<and> (user_agent \<noteq> [] \<and> \<not> alpha (hd user_agent)
        \<and> (\<forall>p\<in>set client_patterns. re_search p user_agent True = None)
        \<longrightarrow> extract_client_name user_agent = Inr (Some (cps ''Browser'')))
   \<and> extract_client_name (cps '' '') = Inr (Some (cps ''Browser''))
   \<and> extract_client_name (cps ''1client/2.0'') = Inr (Some (cps ''Browser''))
   \<and> extract_client_name (cps ''1curl/2.0'') = Inr (Some (cps ''curl''))"
proof -
  note old = unknown_result_cases[of user_agent]
  have w: "extract_client_name user_agent = Inr (Some (cps ''Browser''))"
    if "user_agent \<noteq> [] \<and> list_all py_space user_agent"
    using that no_slash_browser py_space_no_slash by blast
  have n: "extract_client_name user_agent = Inr (Some (cps ''Browser''))"
    if "user_agent \<noteq> [] \<and> \<not> alpha (hd user_agent)
        \<and> (\<forall>p\<in>set client_patterns. re_search p user_agent True = None)"
    using that nonletter_browser by blast
  have c: "extract_client_name (cps ''1curl/2.0'') = Inr (Some (cps ''curl''))"
    by (simp add: client_eval)
  from old w n c show ?thesis by (intro conjI impI) simp_all
qed

theorem unknown_result_exact_witness:
  "extract_client_name (cps ''Unknown/beta'') = Inr (Some (cps ''Unknown''))
   \<and> extract_client_name (cps ''Unknown'') \<noteq> Inr (Some (cps ''Unknown''))
   \<and> extract_client_name [0x9, 0x3000, 0x20] = Inr (Some (cps ''Browser''))
   \<and> extract_client_name (cps ''9lives/1.0'') = Inr (Some (cps ''Browser''))"
proof -
  have h: "\<forall>p\<in>set client_patterns. re_search p (cps ''Unknown/beta'') True = None"
    by (simp add: client_eval)
  have e: "cps ''Unknown/beta'' = cps ''Unknown/'' @ cps ''beta''" by (simp add: cps_def)
  have 1: "extract_client_name (cps ''Unknown/beta'') = Inr (Some (cps ''Unknown''))"
    using unknown_result_exact[of "cps ''Unknown/beta''"] h e by blast
  have "cps ''Unknown'' \<noteq> []" "\<not> (\<exists>rest. cps ''Unknown'' = cps ''Unknown/'' @ rest)"
    by (simp_all add: cps_def)
  then have 2: "extract_client_name (cps ''Unknown'') \<noteq> Inr (Some (cps ''Unknown''))"
    using unknown_result_exact[of "cps ''Unknown''"] by blast
  have "[0x9, 0x3000, 0x20] \<noteq> ([] :: nat list)" "list_all py_space [0x9, 0x3000, 0x20]"
    by (simp_all add: py_space_def)
  then have 3: "extract_client_name [0x9, 0x3000, 0x20] = Inr (Some (cps ''Browser''))"
    using unknown_result_exact[of "[0x9, 0x3000, 0x20]"] by blast
  have "cps ''9lives/1.0'' \<noteq> []" "\<not> alpha (hd (cps ''9lives/1.0''))"
    by (simp_all add: cps_def alpha_def)
  moreover have "\<forall>p\<in>set client_patterns. re_search p (cps ''9lives/1.0'') True = None"
    by (simp add: client_eval)
  ultimately have 4: "extract_client_name (cps ''9lives/1.0'') = Inr (Some (cps ''Browser''))"
    using unknown_result_exact[of "cps ''9lives/1.0''"] by blast
  from 1 2 3 4 show ?thesis by simp
qed

end
